theory Spec2Isabelle
  imports Complex_Main "HOL-Library.AList" "HOL-Library.Char_ord" "HOL-Library.List_Lexorder"
begin

section \<open>Data model of \<open>scripts/run_mujoco_eval.py\<close>\<close>

text \<open>
  The script drives one evaluation episode of a frozen policy against a simulation
  environment.  Everything the script imports (jax, numpy, cv2, imageio, os, the
  environment and the agent) is a collaborator outside the repository; each is a
  parameter of the model, and each of its calls may raise.  A raised Python exception is
  the value \<open>Inl (Exn class_name)\<close>.
\<close>

datatype exn = Exn string

text \<open>
  A numpy array: its shape, the kind of its dtype and its elements in row-major order.
  The element type is a parameter.
\<close>

datatype dtype = DFloat | DInt | DUInt | DBool | DStr | DObject

datatype 'd ndarray = NdArray (shape: "nat list") (dtype: dtype) (buf: "'d list")

definition numeric :: "dtype \<Rightarrow> bool" where
  "numeric t \<longleftrightarrow> t = DFloat \<or> t = DInt \<or> t = DUInt \<or> t = DBool"

text \<open>
  A leaf of a Python value is either an \<open>np.ndarray\<close> (the only thing
  \<open>isinstance(x, np.ndarray)\<close> accepts) or some other object.
\<close>

datatype ('d, 'p) pyleaf = Array "'d ndarray" | PyObject 'p

text \<open>
  The containers that \<open>jax.tree_util\<close> treats as nodes: dict, list, tuple and None.
  A dict is its items in insertion order.
\<close>

datatype 'a pytree =
    Leaf 'a
  | PyDict "(string \<times> 'a pytree) list"
  | PyList "'a pytree list"
  | PyTuple "'a pytree list"
  | PyNone

type_synonym ('d, 'p) observation = "('d, 'p) pyleaf pytree"

datatype interpolation = INTER_NEAREST | INTER_LINEAR | INTER_AREA

text \<open>
  The imported libraries.  \<open>cv2\<close> and \<open>imageio\<close> are optional: \<open>None\<close> is a failed
  import.  \<open>np_coerce\<close> is what \<open>np.asarray\<close> does to an object that is not already an
  array.  \<open>imageio_mimsave\<close> and \<open>os_makedirs\<close> return the exception they raise, if any.
\<close>

record ('k, 'd, 'p) libs =
  jax_random_PRNGKey :: "int \<Rightarrow> 'k"
  jax_random_split :: "'k \<Rightarrow> 'k \<times> 'k"
  np_coerce :: "'p \<Rightarrow> exn + 'd ndarray"
  cv2_resize :: "('d ndarray \<Rightarrow> int \<times> int \<Rightarrow> interpolation \<Rightarrow> exn + 'd ndarray) option"
  imageio_mimsave :: "(string \<Rightarrow> 'd ndarray list \<Rightarrow> nat \<Rightarrow> exn option) option"
  os_path_dirname :: "string \<Rightarrow> string"
  os_makedirs :: "string \<Rightarrow> exn option"

text \<open>
  The environment object: its methods act on a hidden state \<open>'e\<close> and return the new one.
  \<open>step\<close> returns \<open>(obs, r, terminated, truncated)\<close>; the \<open>info\<close> dictionaries of
  \<open>reset\<close> and \<open>step\<close> are never read by the script and are left out.
\<close>

record ('e, 'd, 'p, 'r) env =
  reset :: "'e \<Rightarrow> exn + (('d, 'p) observation \<times> 'e)"
  step :: "'e \<Rightarrow> 'd ndarray \<Rightarrow> exn + ((('d, 'p) observation \<times> 'r \<times> bool \<times> bool) \<times> 'e)"
  render :: "'e \<Rightarrow> exn + (('d, 'p) pyleaf \<times> 'e)"

text \<open>The agent: \<open>agent.sample_actions(batched, seed=sub)\<close>.\<close>

type_synonym ('k, 'd, 'p) agent =
  "'d ndarray pytree \<Rightarrow> 'k \<Rightarrow> exn + ('d, 'p) pyleaf"

text \<open>The keyword arguments of \<open>run_episode\<close>, with the defaults of its signature.\<close>

record args =
  render_arg :: bool
  record_path :: "string option"
  max_steps :: int
  img_hw :: "int \<times> int"

definition default_args :: args where
  "default_args =
     \<lparr>render_arg = False, record_path = None, max_steps = 1000, img_hw = (240, 320)\<rparr>"

text \<open>
  One entry per completed loop iteration: the sub-seed given to the policy, the action
  given to \<open>env.step\<close> and what \<open>env.step\<close> answered.  The list of entries is a log of
  the calls made; the script itself does not keep it.
\<close>

record ('k, 'd, 'r) step_rec =
  sub :: 'k
  action :: "'d ndarray"
  reward :: 'r
  terminated :: bool
  truncated :: bool

text \<open>The local variables of \<open>run_episode\<close>, the environment's state, and the log.\<close>

record ('k, 'd, 'p, 'r, 'e) locals =
  key :: 'k
  frames :: "'d ndarray list"
  obs :: "('d, 'p) observation"
  ep_ret :: 'r
  ep_len :: int
  env_state :: 'e
  history :: "('k, 'd, 'r) step_rec list"

datatype 'd io_event =
    Makedirs string
  | Mimsave string "'d ndarray list" nat
  | Print string

text \<open>
  The returned \<open>dict(return_=ep_ret, length=ep_len)\<close>; its keys are written with a
  prime here.
\<close>

record 'r episode_result =
  return' :: 'r
  length' :: int

text \<open>
  What a call of \<open>run_episode\<close> leaves behind: the returned dict, the files written and
  lines printed (in order), and the locals at the end of the loop.
\<close>

record ('k, 'd, 'p, 'r, 'e) outcome =
  result :: "'r episode_result"
  io :: "'d io_event list"
  final :: "('k, 'd, 'p, 'r, 'e) locals"

section \<open>The observation adapter\<close>

text \<open>\<open>np.asarray(x)\<close>: an array is returned as it is.\<close>

fun np_asarray :: "('k, 'd, 'p) libs \<Rightarrow> ('d, 'p) pyleaf \<Rightarrow> exn + 'd ndarray" where
  "np_asarray L (Array a) = Inr a"
| "np_asarray L (PyObject p) = np_coerce L p"

text \<open>\<open>a[None, ...]\<close>: a view of the same elements with a new first axis of size 1.\<close>

definition newaxis :: "'d ndarray \<Rightarrow> 'd ndarray" where
  "newaxis a = NdArray (1 # shape a) (dtype a) (buf a)"

text \<open>A list of results is the list of values, or the first exception raised.\<close>

fun sequence :: "('e + 'a) list \<Rightarrow> 'e + 'a list" where
  "sequence [] = Inr []"
| "sequence (Inl e # rs) = Inl e"
| "sequence (Inr x # rs) = (case sequence rs of Inl e \<Rightarrow> Inl e | Inr xs \<Rightarrow> Inr (x # xs))"

fun item_result :: "'k \<times> ('e + 'a) \<Rightarrow> 'e + ('k \<times> 'a)" where
  "item_result (k, Inl e) = Inl e"
| "item_result (k, Inr v) = Inr (k, v)"

text \<open>
  \<open>jax.tree_util.tree_map(f, tree)\<close> for a function that may raise: containers are
  rebuilt around the mapped children, \<open>None\<close> has no leaves.  The items of a dict are
  visited by ascending key, and the dict is rebuilt with its keys in that order.  Keys are
  strings, compared as Python compares them (character by character, a proper prefix
  first).
\<close>

primrec tree_map :: "('a \<Rightarrow> exn + 'b) \<Rightarrow> 'a pytree \<Rightarrow> exn + 'b pytree" where
  "tree_map f (Leaf x) = map_sum id Leaf (f x)"
| "tree_map f (PyDict kvs) =
     map_sum id PyDict
       (sequence (map item_result (sort_key fst (map (map_prod id (tree_map f)) kvs))))"
| "tree_map f (PyList ts) = map_sum id PyList (sequence (map (tree_map f) ts))"
| "tree_map f (PyTuple ts) = map_sum id PyTuple (sequence (map (tree_map f) ts))"
| "tree_map f PyNone = Inr PyNone"

definition obs_to_batched ::
  "('k, 'd, 'p) libs \<Rightarrow> ('d, 'p) observation \<Rightarrow> exn + 'd ndarray pytree" where
  "obs_to_batched L ob = tree_map (\<lambda>x. map_sum id newaxis (np_asarray L x)) ob"

text \<open>
  \<open>_resize_top(ob)\<close>, the closure inside \<open>run_episode\<close>.  The whole body sits in
  \<open>try: ... except Exception: pass\<close>, so a failed \<open>import cv2\<close>, a lookup in something
  that is not a dict, and an exception of \<open>cv2.resize\<close> all end in \<open>return ob\<close>.  The
  copies \<open>{**ob}\<close> and \<open>{**ob["pixels"]}\<close> keep the caller's dicts untouched; assigning to
  a key that is present keeps its position.
\<close>

definition resize_top ::
  "('k, 'd, 'p) libs \<Rightarrow> int \<times> int \<Rightarrow> ('d, 'p) observation \<Rightarrow> ('d, 'p) observation" where
  "resize_top L hw ob =
     (case cv2_resize L of
        None \<Rightarrow> ob
      | Some resize \<Rightarrow>
          (case ob of
             PyDict items \<Rightarrow>
               (case map_of items ''pixels'' of
                  Some (PyDict pixels) \<Rightarrow>
                    (case map_of pixels ''top'' of
                       Some img \<Rightarrow>
                         (case hw of (H, W) \<Rightarrow>
                            (case img of
                               Leaf (Array a) \<Rightarrow>
                                 if length (shape a) = 3 \<and> map int (take 2 (shape a)) \<noteq> [H, W]
                                 then (case resize a (W, H) INTER_AREA of
                                         Inl e \<Rightarrow> ob
                                       | Inr r \<Rightarrow>
                                           PyDict (AList.update ''pixels''
                                             (PyDict (AList.update ''top'' (Leaf (Array r)) pixels))
                                             items))
                                 else ob
                             | _ \<Rightarrow> ob))
                     | None \<Rightarrow> ob)
                | _ \<Rightarrow> ob)
           | _ \<Rightarrow> ob))"

section \<open>The episode runner\<close>

text \<open>
  \<open>arr[0]\<close> on an array: the first slice along the first axis; IndexError on a
  0-dimensional array and on an empty first axis.
\<close>

definition index0 :: "'d ndarray \<Rightarrow> exn + 'd ndarray" where
  "index0 a =
     (case shape a of
        [] \<Rightarrow> Inl (Exn ''IndexError'')
      | n # rest \<Rightarrow>
          if n = 0 then Inl (Exn ''IndexError'')
          else Inr (NdArray rest (dtype a) (take (prod_list rest) (buf a))))"

text \<open>
  Lines 53 to 56: with \<open>render\<close> set, ask the environment for a frame and keep it when it
  is an array and imageio was imported.
\<close>

definition capture ::
  "('k, 'd, 'p) libs \<Rightarrow> ('e, 'd, 'p, 'r) env \<Rightarrow> args \<Rightarrow> 'e \<Rightarrow> 'd ndarray list \<Rightarrow>
     exn + ('d ndarray list \<times> 'e)" where
  "capture L E a w fs =
     (if render_arg a then
        (case render E w of
           Inl e \<Rightarrow> Inl e
         | Inr (frame, w') \<Rightarrow>
             (case frame of
                Array f \<Rightarrow> if imageio_mimsave L \<noteq> None then Inr (fs @ [f], w') else Inr (fs, w')
              | PyObject x \<Rightarrow> Inr (fs, w')))
      else Inr (fs, w))"

text \<open>
  One pass through the body of \<open>while True\<close> (lines 43 to 59).  The second component of
  the result is the condition of the \<open>break\<close>.  \<open>float(r)\<close> is the reward itself: rewards
  are values of a type with an addition and a zero, of which nothing else is assumed.
\<close>

definition loop_body ::
  "('k, 'd, 'p) libs \<Rightarrow> ('k, 'd, 'p) agent \<Rightarrow> ('e, 'd, 'p, 'r) env \<Rightarrow> args \<Rightarrow>
     ('k, 'd, 'p, 'r::{plus,zero}, 'e) locals \<Rightarrow> exn + (('k, 'd, 'p, 'r, 'e) locals \<times> bool)" where
  "loop_body L agent E a s =
     (case obs_to_batched L (obs s) of
        Inl e \<Rightarrow> Inl e
      | Inr batched \<Rightarrow>
     (case jax_random_split L (key s) of (key', sub') \<Rightarrow>
     (case agent batched sub' of
        Inl e \<Rightarrow> Inl e
      | Inr sampled \<Rightarrow>
     (case np_asarray L sampled of
        Inl e \<Rightarrow> Inl e
      | Inr arr \<Rightarrow>
     (case index0 arr of
        Inl e \<Rightarrow> Inl e
      | Inr act \<Rightarrow>
     (case step E (env_state s) act of
        Inl e \<Rightarrow> Inl e
      | Inr ((ob', r, term, trunc), w1) \<Rightarrow>
     (case capture L E a w1 (frames s) of
        Inl e \<Rightarrow> Inl e
      | Inr (frames', w2) \<Rightarrow>
          Inr (\<lparr>key = key', frames = frames', obs = resize_top L (img_hw a) ob',
                ep_ret = ep_ret s + r, ep_len = ep_len s + 1, env_state = w2,
                history = history s @
                  [\<lparr>sub = sub', action = act, reward = r, terminated = term,
                    truncated = trunc\<rparr>]\<rparr>,
               term \<or> trunc \<or> ep_len s + 1 \<ge> max_steps a))))))))"

text \<open>The loop \<open>while True: ... if ...: break\<close>: the body runs before the test.\<close>

function episode_loop ::
  "('k, 'd, 'p) libs \<Rightarrow> ('k, 'd, 'p) agent \<Rightarrow> ('e, 'd, 'p, 'r) env \<Rightarrow> args \<Rightarrow>
     ('k, 'd, 'p, 'r::{plus,zero}, 'e) locals \<Rightarrow> exn + ('k, 'd, 'p, 'r, 'e) locals" where
  "episode_loop L agent E a s =
     (case loop_body L agent E a s of
        Inl e \<Rightarrow> Inl e
      | Inr (s', stop) \<Rightarrow> if stop then Inr s' else episode_loop L agent E a s')"
  by pat_completeness auto
termination
  by (relation "measure (\<lambda>(L, agent, E, a, s). nat (max_steps a - ep_len s))")
    (auto simp: loop_body_def split: sum.splits prod.splits)

text \<open>
  Lines 62 to 66: the video is written when \<open>record_path\<close> is a non-empty string, imageio
  was imported and at least one frame was kept.  Exceptions of \<open>os.makedirs\<close> and
  \<open>imageio.mimsave\<close> are not caught.
\<close>

definition save_video ::
  "('k, 'd, 'p) libs \<Rightarrow> args \<Rightarrow> 'd ndarray list \<Rightarrow> exn + 'd io_event list" where
  "save_video L a fs =
     (case record_path a of
        None \<Rightarrow> Inr []
      | Some path \<Rightarrow>
          (case imageio_mimsave L of
             None \<Rightarrow> Inr []
           | Some mimsave \<Rightarrow>
               if path \<noteq> [] \<and> fs \<noteq> [] then
                 (case os_makedirs L (os_path_dirname L path) of
                    Some e \<Rightarrow> Inl e
                  | None \<Rightarrow>
                      (case mimsave path fs 30 of
                         Some e \<Rightarrow> Inl e
                       | None \<Rightarrow>
                           Inr [Makedirs (os_path_dirname L path), Mimsave path fs 30,
                                Print (''[video] saved: '' @ path)]))
               else Inr []))"

text \<open>
  \<open>run_episode(agent, env, render, record_path, max_steps, img_hw)\<close>; \<open>w\<close> is the state
  of the environment object when the call is made.
\<close>

definition run_episode ::
  "('k, 'd, 'p) libs \<Rightarrow> ('k, 'd, 'p) agent \<Rightarrow> ('e, 'd, 'p, 'r) env \<Rightarrow> 'e \<Rightarrow> args \<Rightarrow>
     exn + ('k, 'd, 'p, 'r::{plus,zero}, 'e) outcome" where
  "run_episode L agent E w a =
     (case reset E w of
        Inl e \<Rightarrow> Inl e
      | Inr (ob, w0) \<Rightarrow>
     (case episode_loop L agent E a
             \<lparr>key = jax_random_PRNGKey L 0, frames = [],
              obs = resize_top L (img_hw a) ob, ep_ret = 0, ep_len = 0,
              env_state = w0, history = []\<rparr> of
        Inl e \<Rightarrow> Inl e
      | Inr s \<Rightarrow>
     (case save_video L a (frames s) of
        Inl e \<Rightarrow> Inl e
      | Inr events \<Rightarrow>
          Inr \<lparr>result = \<lparr>return' = ep_ret s, length' = ep_len s\<rparr>, io = events,
               final = s\<rparr>)))"

section \<open>Notions used to state the properties\<close>

text \<open>
  The random-sequence state after \<open>n\<close> passes of \<open>key, sub = jax.random.split(key)\<close>
  starting from \<open>jax.random.PRNGKey(0)\<close>, and the sub-seed that pass number \<open>n\<close>
  (counted from 0) derives from it.
\<close>

primrec key_chain :: "('k, 'd, 'p) libs \<Rightarrow> nat \<Rightarrow> 'k" where
  "key_chain L 0 = jax_random_PRNGKey L 0"
| "key_chain L (Suc n) = fst (jax_random_split L (key_chain L n))"

definition sub_seed :: "('k, 'd, 'p) libs \<Rightarrow> nat \<Rightarrow> 'k" where
  "sub_seed L n = snd (jax_random_split L (key_chain L n))"

text \<open>A log entry that records a genuine call: \<open>env.step(action)\<close> answered with it.\<close>

definition answered :: "('e, 'd, 'p, 'r) env \<Rightarrow> ('k, 'd, 'r) step_rec \<Rightarrow> bool" where
  "answered E x \<longleftrightarrow>
     (\<exists>w ob w'. step E w (action x) = Inr ((ob, reward x, terminated x, truncated x), w'))"

text \<open>An environment that never reports termination or truncation.\<close>

definition never_ends :: "('e, 'd, 'p, 'r) env \<Rightarrow> bool" where
  "never_ends E \<longleftrightarrow>
     (\<forall>w act ob r tm tr w'. step E w act = Inr ((ob, r, tm, tr), w') \<longrightarrow> \<not> tm \<and> \<not> tr)"

text \<open>
  What holds of the locals at the head of the loop: the counters agree with the log, and no
  earlier pass met the condition of the \<open>break\<close>; and the key in hand is the one
  the chain of splits gives for the number of passes made.
\<close>

definition loop_inv :: "args \<Rightarrow> ('k, 'd, 'p, 'r::{plus,zero}, 'e) locals \<Rightarrow> bool" where
  "loop_inv a s \<longleftrightarrow>
     ep_len s = int (length (history s)) \<and>
     ep_ret s = foldl (+) 0 (map reward (history s)) \<and>
     (\<forall>i < length (history s).
        \<not> terminated (history s ! i) \<and> \<not> truncated (history s ! i) \<and> int (i + 1) < max_steps a)"

definition seed_inv :: "('k, 'd, 'p) libs \<Rightarrow> ('k, 'd, 'p, 'r, 'e) locals \<Rightarrow> bool" where
  "seed_inv L s \<longleftrightarrow>
     key s = key_chain L (length (history s)) \<and>
     map sub (history s) = map (sub_seed L) [0..<length (history s)]"

text \<open>
  A structure with the items of every dict listed by ascending key.  As Python values the
  two are equal: dict equality does not look at the order of the items.
\<close>

primrec sort_dicts :: "'a pytree \<Rightarrow> 'a pytree" where
  "sort_dicts (Leaf x) = Leaf x"
| "sort_dicts (PyDict kvs) = PyDict (sort_key fst (map (map_prod id sort_dicts) kvs))"
| "sort_dicts (PyList ts) = PyList (map sort_dicts ts)"
| "sort_dicts (PyTuple ts) = PyTuple (map sort_dicts ts)"
| "sort_dicts PyNone = PyNone"

text \<open>
  The batched form of an array, in the words of the specification: the same array with
  one new leading dimension of size 1.
\<close>

definition adds_leading_dim :: "'d ndarray \<Rightarrow> 'd ndarray \<Rightarrow> bool" where
  "adds_leading_dim a b \<longleftrightarrow> shape b = 1 # shape a \<and> dtype b = dtype a \<and> buf b = buf a"

text \<open>\<open>ob[k]\<close> for a dict \<open>ob\<close> that has the key; \<open>None\<close> for anything else.\<close>

fun field :: "'a pytree \<Rightarrow> string \<Rightarrow> 'a pytree option" where
  "field (PyDict items) k = map_of items k"
| "field t k = None"

text \<open>The designated visual sub-field \<open>ob["pixels"]["top"]\<close> of a mapping observation.\<close>

definition pixels_top :: "'a pytree \<Rightarrow> 'a pytree option" where
  "pixels_top ob =
     (case field ob ''pixels'' of
        Some (PyDict pixels) \<Rightarrow> map_of pixels ''top''
      | _ \<Rightarrow> None)"

text \<open>An image whose first two dimensions are the target height and width.\<close>

definition has_resolution :: "'d ndarray \<Rightarrow> int \<times> int \<Rightarrow> bool" where
  "has_resolution a hw \<longleftrightarrow> map int (take 2 (shape a)) = [fst hw, snd hw]"

text \<open>
  Two dicts with the same keys in the same order that agree on every entry other than
  the one under \<open>k\<close>.
\<close>

fun same_except :: "string \<Rightarrow> 'a pytree \<Rightarrow> 'a pytree \<Rightarrow> bool" where
  "same_except k (PyDict items) (PyDict items') \<longleftrightarrow>
     map fst items' = map fst items \<and>
     filter (\<lambda>kv. fst kv \<noteq> k) items' = filter (\<lambda>kv. fst kv \<noteq> k) items"
| "same_except k t t' \<longleftrightarrow> False"

text \<open>
  \<open>ob'\<close> is \<open>ob\<close> with only \<open>ob["pixels"]["top"]\<close> replaced by the image \<open>r\<close>.
\<close>

definition only_top_replaced ::
  "('d, 'p) observation \<Rightarrow> ('d, 'p) observation \<Rightarrow> 'd ndarray \<Rightarrow> bool" where
  "only_top_replaced ob ob' r \<longleftrightarrow>
     same_except ''pixels'' ob ob' \<and>
     (case (field ob ''pixels'', field ob' ''pixels'') of
        (Some px, Some px') \<Rightarrow> same_except ''top'' px px'
      | _ \<Rightarrow> False) \<and>
     pixels_top ob' = Some (Leaf (Array r))"

text \<open>
  The contract of \<open>cv2.resize(img, (W, H), ...)\<close> that the script relies on: what it
  returns is \<open>H\<close> high and \<open>W\<close> wide.
\<close>

definition cv2_contract :: "('k, 'd, 'p) libs \<Rightarrow> bool" where
  "cv2_contract L \<longleftrightarrow>
     (\<forall>resize img W H m r. cv2_resize L = Some resize \<longrightarrow> resize img (W, H) m = Inr r \<longrightarrow>
        has_resolution r (H, W))"

text \<open>
  Two environment objects that answer alike: from states related by \<open>R\<close>, each method
  raises the same exception in both or returns the same values in both, leaving states
  related by \<open>R\<close> again.
\<close>

definition same_responses ::
  "('e1 \<Rightarrow> 'e2 \<Rightarrow> bool) \<Rightarrow> ('e1, 'd, 'p, 'r) env \<Rightarrow> ('e2, 'd, 'p, 'r) env \<Rightarrow> bool" where
  "same_responses R E1 E2 \<longleftrightarrow>
     (\<forall>w1 w2. R w1 w2 \<longrightarrow> rel_sum (=) (rel_prod (=) R) (reset E1 w1) (reset E2 w2)) \<and>
     (\<forall>w1 w2 act. R w1 w2 \<longrightarrow> rel_sum (=) (rel_prod (=) R) (step E1 w1 act) (step E2 w2 act)) \<and>
     (\<forall>w1 w2. R w1 w2 \<longrightarrow> rel_sum (=) (rel_prod (=) R) (render E1 w1) (render E2 w2))"

text \<open>Locals that agree on everything the script computes, with related environments.\<close>

definition same_locals ::
  "('e1 \<Rightarrow> 'e2 \<Rightarrow> bool) \<Rightarrow> ('k, 'd, 'p, 'r, 'e1) locals \<Rightarrow> ('k, 'd, 'p, 'r, 'e2) locals \<Rightarrow> bool" where
  "same_locals R s1 s2 \<longleftrightarrow>
     key s1 = key s2 \<and> frames s1 = frames s2 \<and> obs s1 = obs s2 \<and> ep_ret s1 = ep_ret s2 \<and>
     ep_len s1 = ep_len s2 \<and> history s1 = history s2 \<and> R (env_state s1) (env_state s2)"

definition same_outcome ::
  "('e1 \<Rightarrow> 'e2 \<Rightarrow> bool) \<Rightarrow> ('k, 'd, 'p, 'r, 'e1) outcome \<Rightarrow> ('k, 'd, 'p, 'r, 'e2) outcome \<Rightarrow> bool" where
  "same_outcome R o1 o2 \<longleftrightarrow>
     result o1 = result o2 \<and> io o1 = io o2 \<and> same_locals R (final o1) (final o2)"

section \<open>The random keys\<close>

text \<open>
  Modelled from the spec: \<open>jax.random.PRNGKey\<close> and \<open>jax.random.split\<close>, functions of the
  jax library, which is not part of the source tree.  The specification describes the
  random-sequence state as "a reproducible seed advanced by a pure split/derive operation
  on every step" from which "a fresh per-step random sub-seed" is derived.  A key is
  modelled as what such a derivation determines: the root seed and the path of
  derivations taken from it, \<open>False\<close> for the first output of a split and \<open>True\<close> for the
  second.  \<open>split\<close> is a function of the key alone and its outputs are fresh: each is a
  key that no other path derives.
\<close>

definition spec_PRNGKey :: "int \<Rightarrow> int \<times> bool list" where
  "spec_PRNGKey seed = (seed, [])"

definition spec_split :: "int \<times> bool list \<Rightarrow> (int \<times> bool list) \<times> (int \<times> bool list)" where
  "spec_split k = ((fst k, snd k @ [False]), (fst k, snd k @ [True]))"

text \<open>Any libraries, with these two functions for the keys.\<close>

definition with_spec_prng ::
  "(int \<times> bool list, 'd, 'p) libs \<Rightarrow> (int \<times> bool list, 'd, 'p) libs" where
  "with_spec_prng L = L\<lparr>jax_random_PRNGKey := spec_PRNGKey, jax_random_split := spec_split\<rparr>"

section \<open>Reference instances of the collaborators\<close>

text \<open>
  Concrete libraries, agent and environments on which the properties are exercised.
  Python scalars are integers or strings.  In \<open>ref_libs\<close> the keys are those of the
  previous section; \<open>np.asarray\<close> of a scalar is a 0-dimensional
  array (of strings for a string); \<open>cv2.resize\<close> returns a blank image of the requested
  size; \<open>os.makedirs\<close> of the empty path raises, as the real one does.
\<close>

datatype scalar = Num int | Str string

definition ref_dirname :: "string \<Rightarrow> string" where
  "ref_dirname path =
     (let head = rev (dropWhile (\<lambda>c. c \<noteq> CHR ''/'') (rev path)) in
      if head \<noteq> [] \<and> (\<exists>c \<in> set head. c \<noteq> CHR ''/'')
      then rev (dropWhile (\<lambda>c. c = CHR ''/'') (rev head))
      else head)"

definition ref_libs :: "(int \<times> bool list, scalar, scalar) libs" where
  "ref_libs =
     \<lparr>jax_random_PRNGKey = spec_PRNGKey,
      jax_random_split = spec_split,
      np_coerce = (\<lambda>x. case x of Num n \<Rightarrow> Inr (NdArray [] DInt [x])
                                | Str s \<Rightarrow> Inr (NdArray [] DStr [x])),
      cv2_resize = Some (\<lambda>img wh m.
        if 0 < fst wh \<and> 0 < snd wh
        then Inr (NdArray (nat (snd wh) # nat (fst wh) # drop 2 (shape img)) (dtype img) [])
        else Inl (Exn ''cv2.error'')),
      imageio_mimsave = Some (\<lambda>path fs fps. None),
      os_path_dirname = ref_dirname,
      os_makedirs = (\<lambda>d. if d = [] then Some (Exn ''FileNotFoundError'') else None)\<rparr>"

text \<open>An agent that always answers with the same batch of one two-dimensional action.\<close>

definition ref_agent :: "(int \<times> bool list, scalar, scalar) agent" where
  "ref_agent batched seed = Inr (Array (NdArray [1, 2] DFloat [Num 0, Num 0]))"

text \<open>
  An environment whose state is the number of steps taken since the last reset: it
  always shows the observation \<open>ob\<close>, pays \<open>rew n\<close> for step \<open>n\<close> (counted from 1), reports
  \<open>terminated\<close> at the steps \<open>fin\<close> selects and never reports \<open>truncated\<close>; it renders a
  one-pixel frame.
\<close>

definition counting_env ::
  "(scalar, scalar) observation \<Rightarrow> (nat \<Rightarrow> real) \<Rightarrow> (nat \<Rightarrow> bool) \<Rightarrow>
     (nat, scalar, scalar, real) env" where
  "counting_env ob rew fin =
     \<lparr>reset = (\<lambda>w. Inr (ob, 0)),
      step = (\<lambda>w act. Inr ((ob, rew (Suc w), fin (Suc w), False), Suc w)),
      render = (\<lambda>w. Inr (Array (NdArray [1, 1, 3] DUInt [Num 0, Num 0, Num 0]), w))\<rparr>"

definition state_ob :: "(scalar, scalar) observation" where
  "state_ob = Leaf (Array (NdArray [2] DFloat [Num 1, Num 2]))"

text \<open>
  A mapping observation with a proprioceptive vector and a 2 by 2 single-channel camera
  image under \<open>pixels\<close>, \<open>top\<close>.
\<close>

definition pixel_ob :: "(scalar, scalar) observation" where
  "pixel_ob =
     PyDict [(''state'', Leaf (Array (NdArray [2] DFloat [Num 1, Num 2]))),
             (''pixels'', PyDict [(''top'',
                Leaf (Array (NdArray [2, 2, 1] DUInt [Num 7, Num 8, Num 9, Num 10])))])]"

text \<open>
  Instances of it: one that never ends, one that reports \<open>terminated\<close> at every step, and
  one that pays 0.5 for each of the first 25 steps and reports \<open>terminated\<close> at step 37.
\<close>

definition endless_env :: "(nat, scalar, scalar, real) env" where
  "endless_env = counting_env state_ob (\<lambda>n. 1) (\<lambda>n. False)"

definition ended_env :: "(nat, scalar, scalar, real) env" where
  "ended_env = counting_env state_ob (\<lambda>n. 1) (\<lambda>n. True)"

definition scenario_37 ::
  "exn + (int \<times> bool list, scalar, scalar, real, nat) outcome" where
  "scenario_37 =
     run_episode ref_libs ref_agent
       (counting_env state_ob (\<lambda>n. if n \<le> 25 then 1 / 2 else 0) (\<lambda>n. n = 37)) 0 default_args"

text \<open>
  The endless environment once more, with another representation of its state: a tally
  with one mark per step.  \<open>tally_rel\<close> relates the two representations.
\<close>

definition tally_env :: "(bool list, scalar, scalar, real) env" where
  "tally_env =
     \<lparr>reset = (\<lambda>w. Inr (state_ob, [])),
      step = (\<lambda>w act. Inr ((state_ob, 1, False, False), True # w)),
      render = (\<lambda>w. Inr (Array (NdArray [1, 1, 3] DUInt [Num 0, Num 0, Num 0]), w))\<rparr>"

definition tally_rel :: "nat \<Rightarrow> bool list \<Rightarrow> bool" where
  "tally_rel n w \<longleftrightarrow> length w = n"

text \<open>
  Arguments that ask for frames: without a target path, and with the path that \<open>main\<close>
  builds for episode 0 from its default template.
\<close>

definition render_only_args :: args where
  "render_only_args = default_args\<lparr>render_arg := True\<rparr>"

definition record_args :: args where
  "record_args =
     default_args\<lparr>render_arg := True, record_path := Some ''videos/eval_episode_000.mp4''\<rparr>"

text \<open>
  An observation whose only leaf is the Python string \<open>abc\<close>, and libraries in which
  \<open>np.asarray\<close> rejects strings with a ValueError.
\<close>

definition str_ob :: "(scalar, scalar) observation" where
  "str_ob = Leaf (PyObject (Str ''abc''))"

definition strict_libs :: "(int \<times> bool list, scalar, scalar) libs" where
  "strict_libs =
     ref_libs\<lparr>np_coerce := (\<lambda>x. case x of Num n \<Rightarrow> Inr (NdArray [] DInt [x])
                                          | Str s \<Rightarrow> Inl (Exn ''ValueError''))\<rparr>"

definition str_env :: "(nat, scalar, scalar, real) env" where
  "str_env = counting_env str_ob (\<lambda>n. 1) (\<lambda>n. True)"

text \<open>The locals with which \<open>run_episode\<close> enters its loop.\<close>

definition initial_locals ::
  "('k, 'd, 'p) libs \<Rightarrow> args \<Rightarrow> ('d, 'p) observation \<Rightarrow> 'e \<Rightarrow>
     ('k, 'd, 'p, 'r::{plus,zero}, 'e) locals" where
  "initial_locals L a ob w0 =
     \<lparr>key = jax_random_PRNGKey L 0, frames = [], obs = resize_top L (img_hw a) ob,
      ep_ret = 0, ep_len = 0, env_state = w0, history = []\<rparr>"

text \<open>One pass of the loop body that did not end the loop.\<close>

definition next_pass ::
  "('k, 'd, 'p) libs \<Rightarrow> ('k, 'd, 'p) agent \<Rightarrow> ('e, 'd, 'p, 'r) env \<Rightarrow> args \<Rightarrow>
     ('k, 'd, 'p, 'r::{plus,zero}, 'e) locals \<Rightarrow> ('k, 'd, 'p, 'r, 'e) locals \<Rightarrow> bool" where
  "next_pass L agent E a s s' \<longleftrightarrow> loop_body L agent E a s = Inr (s', False)"

section \<open>Facts about the loop\<close>

declare episode_loop.simps [simp del]

lemma loop_body_step:
  assumes "loop_body L agent E a s = Inr (s', stop)"
  shows "\<exists>x. history s' = history s @ [x]
           \<and> sub x = snd (jax_random_split L (key s))
           \<and> key s' = fst (jax_random_split L (key s))
           \<and> ep_ret s' = ep_ret s + reward x
           \<and> ep_len s' = ep_len s + 1
           \<and> stop = (terminated x \<or> truncated x \<or> max_steps a \<le> ep_len s + 1)"
  using assms by (auto simp: loop_body_def split: sum.splits prod.splits)

lemma episode_loop_invariant:
  assumes "episode_loop L agent E a s = Inr t"
    and "I s"
    and "\<And>u u'. I u \<Longrightarrow> loop_body L agent E a u = Inr (u', False) \<Longrightarrow> I u'"
  shows "\<exists>u. I u \<and> loop_body L agent E a u = Inr (t, True)"
  using assms
proof (induction L agent E a s rule: episode_loop.induct)
  case (1 L agent E a s)
  show ?case
  proof (cases "loop_body L agent E a s")
    case (Inl e)
    with "1.prems"(1) show ?thesis by (simp add: episode_loop.simps [of L agent E a s])
  next
    case (Inr p)
    obtain s' stop where p: "p = (s', stop)" by (cases p)
    show ?thesis
    proof (cases stop)
      case True
      with Inr p "1.prems"(1) have "s' = t"
        by (simp add: episode_loop.simps [of L agent E a s])
      with Inr p True "1.prems"(2) show ?thesis by auto
    next
      case False
      with Inr p "1.prems"(1) have run: "episode_loop L agent E a s' = Inr t"
        by (simp add: episode_loop.simps [of L agent E a s])
      have "I s'" using "1.prems"(3) [OF "1.prems"(2)] Inr p False by simp
      then show ?thesis
        using "1.IH" [OF Inr p [symmetric] False run] "1.prems"(3) by blast
    qed
  qed
qed

lemma loop_inv_step:
  assumes "loop_inv a u" and "loop_body L agent E a u = Inr (u', False)"
  shows "loop_inv a u'"
proof -
  from loop_body_step [OF assms(2)] obtain x where
    h: "history u' = history u @ [x]" and r: "ep_ret u' = ep_ret u + reward x"
    and l: "ep_len u' = ep_len u + 1"
    and st: "\<not> terminated x" "\<not> truncated x" "\<not> max_steps a \<le> ep_len u + 1"
    by auto
  have "\<not> terminated (history u' ! i) \<and> \<not> truncated (history u' ! i) \<and> int (i + 1) < max_steps a"
    if "i < length (history u')" for i
  proof (cases "i < length (history u)")
    case True
    with assms(1) h show ?thesis by (simp add: loop_inv_def nth_append)
  next
    case False
    with that h have "i = length (history u)" by simp
    with st assms(1) h show ?thesis by (simp add: loop_inv_def nth_append)
  qed
  with assms(1) h r l show ?thesis by (simp add: loop_inv_def)
qed

lemma seed_inv_step:
  assumes "seed_inv L u" and "loop_body L agent E a u = Inr (u', stop)"
  shows "seed_inv L u'"
proof -
  from loop_body_step [OF assms(2)] obtain x where
    "history u' = history u @ [x]" "sub x = snd (jax_random_split L (key u))"
    "key u' = fst (jax_random_split L (key u))"
    by auto
  with assms(1) show ?thesis by (simp add: seed_inv_def sub_seed_def)
qed

lemma run_episode_final:
  assumes "run_episode L agent E w a = Inr out"
  shows "\<exists>h x. history (final out) = h @ [x]
           \<and> (\<forall>i < length h. \<not> terminated (h ! i) \<and> \<not> truncated (h ! i) \<and> int (i + 1) < max_steps a)
           \<and> map sub h = map (sub_seed L) [0..<length h]
           \<and> sub x = sub_seed L (length h)
           \<and> (terminated x \<or> truncated x \<or> max_steps a \<le> int (length h) + 1)
           \<and> return' (result out) = foldl (+) 0 (map reward h) + reward x
           \<and> length' (result out) = int (length h) + 1
           \<and> save_video L a (frames (final out)) = Inr (io out)"
proof -
  from assms obtain ob w0 t events where
    loop: "episode_loop L agent E a
             \<lparr>key = jax_random_PRNGKey L 0, frames = [],
              obs = resize_top L (img_hw a) ob, ep_ret = 0, ep_len = 0,
              env_state = w0, history = []\<rparr> = Inr t"
    and sv: "save_video L a (frames t) = Inr events"
    and out: "out = \<lparr>result = \<lparr>return' = ep_ret t, length' = ep_len t\<rparr>, io = events, final = t\<rparr>"
    by (auto simp: run_episode_def split: sum.splits prod.splits)
  let ?I = "\<lambda>s. loop_inv a s \<and> seed_inv L s"
  have "\<exists>u. ?I u \<and> loop_body L agent E a u = Inr (t, True)"
  proof (rule episode_loop_invariant [OF loop])
    show "?I \<lparr>key = jax_random_PRNGKey L 0, frames = [],
              obs = resize_top L (img_hw a) ob, ep_ret = 0, ep_len = 0,
              env_state = w0, history = []\<rparr>"
      by (simp add: loop_inv_def seed_inv_def)
  next
    fix u u' assume "?I u" and "loop_body L agent E a u = Inr (u', False)"
    then show "?I u'" using loop_inv_step seed_inv_step by blast
  qed
  then obtain u where u: "loop_inv a u" "seed_inv L u"
    and body: "loop_body L agent E a u = Inr (t, True)" by blast
  from loop_body_step [OF body] obtain x where
    "history t = history u @ [x]" "sub x = snd (jax_random_split L (key u))"
    "ep_ret t = ep_ret u + reward x" "ep_len t = ep_len u + 1"
    "terminated x \<or> truncated x \<or> max_steps a \<le> ep_len u + 1"
    by auto
  with u sv out show ?thesis
    by (intro exI [of _ "history u"] exI [of _ x])
      (simp add: loop_inv_def seed_inv_def sub_seed_def)
qed

lemma loop_bodyE:
  assumes "loop_body L agent E a s = Inr (s', stop)"
  obtains batched sampled arr act ob' r tm tr w1 fs w2 where
    "obs_to_batched L (obs s) = Inr batched"
    "agent batched (snd (jax_random_split L (key s))) = Inr sampled"
    "np_asarray L sampled = Inr arr"
    "index0 arr = Inr act"
    "step E (env_state s) act = Inr ((ob', r, tm, tr), w1)"
    "capture L E a w1 (frames s) = Inr (fs, w2)"
    "s' = \<lparr>key = fst (jax_random_split L (key s)), frames = fs,
           obs = resize_top L (img_hw a) ob', ep_ret = ep_ret s + r,
           ep_len = ep_len s + 1, env_state = w2,
           history = history s @
             [\<lparr>sub = snd (jax_random_split L (key s)), action = act, reward = r,
               terminated = tm, truncated = tr\<rparr>]\<rparr>"
    "stop = (tm \<or> tr \<or> max_steps a \<le> ep_len s + 1)"
  using assms unfolding loop_body_def
  by (simp split: sum.splits prod.splits)

lemma loop_body_answered:
  assumes "loop_body L agent E a s = Inr (s', stop)"
  shows "\<exists>x. history s' = history s @ [x] \<and> answered E x"
proof -
  from assms obtain act ob' r tm tr w1 x where
    "step E (env_state s) act = Inr ((ob', r, tm, tr), w1)"
    "history s' = history s @ [x]"
    "x = \<lparr>sub = snd (jax_random_split L (key s)), action = act, reward = r,
               terminated = tm, truncated = tr\<rparr>"
    by (elim loop_bodyE) simp
  then show ?thesis unfolding answered_def by (intro exI [of _ x]) auto
qed

lemma run_episode_answered:
  assumes "run_episode L agent E w a = Inr out"
  shows "\<forall>x \<in> set (history (final out)). answered E x"
proof -
  from assms obtain ob w0 where
    loop: "episode_loop L agent E a
             \<lparr>key = jax_random_PRNGKey L 0, frames = [],
              obs = resize_top L (img_hw a) ob, ep_ret = 0, ep_len = 0,
              env_state = w0, history = []\<rparr> = Inr (final out)"
    by (auto simp: run_episode_def split: sum.splits prod.splits)
  let ?I = "\<lambda>s. \<forall>x \<in> set (history s). answered E x"
  have "\<exists>u. ?I u \<and> loop_body L agent E a u = Inr (final out, True)"
  proof (rule episode_loop_invariant [OF loop])
    show "?I \<lparr>key = jax_random_PRNGKey L 0, frames = [],
              obs = resize_top L (img_hw a) ob, ep_ret = 0, ep_len = 0,
              env_state = w0, history = []\<rparr>"
      by simp
  next
    fix u u' assume "?I u" and "loop_body L agent E a u = Inr (u', False)"
    then show "?I u'" using loop_body_answered [of L agent E a u u' False] by auto
  qed
  then obtain u where "?I u" and "loop_body L agent E a u = Inr (final out, True)" by blast
  then show ?thesis using loop_body_answered [of L agent E a u "final out" True] by auto
qed

lemma episode_loop_returns:
  assumes "\<And>u. \<not> isl (loop_body L agent E a u)"
  shows "\<not> isl (episode_loop L agent E a s)"
  using assms
proof (induction L agent E a s rule: episode_loop.induct)
  case (1 L agent E a s)
  from "1.prems" [of s] obtain s' stop where b: "loop_body L agent E a s = Inr (s', stop)"
    by (cases "loop_body L agent E a s") (auto simp del: not_None_eq)
  show ?case
  proof (cases stop)
    case True
    with b show ?thesis by (simp add: episode_loop.simps [of L agent E a s])
  next
    case False
    with b "1.IH" [OF b refl False] "1.prems" show ?thesis
      by (simp add: episode_loop.simps [of L agent E a s])
  qed
qed

lemma run_episode_returns:
  assumes "\<not> isl (reset E w)" and "\<And>s. \<not> isl (loop_body L agent E a s)"
    and "\<And>fs. \<not> isl (save_video L a fs)"
  shows "\<not> isl (run_episode L agent E w a)"
proof -
  from assms(1) obtain ob w0 where r: "reset E w = Inr (ob, w0)"
    by (cases "reset E w") auto
  let ?s0 = "\<lparr>key = jax_random_PRNGKey L 0, frames = [],
              obs = resize_top L (img_hw a) ob, ep_ret = 0, ep_len = 0,
              env_state = w0, history = []\<rparr>"
  from episode_loop_returns [of L agent E a ?s0] assms(2)
  obtain t where l: "episode_loop L agent E a ?s0 = Inr t"
    by (cases "episode_loop L agent E a ?s0") auto
  from assms(3) [of "frames t"] obtain ev where "save_video L a (frames t) = Inr ev"
    by (cases "save_video L a (frames t)") auto
  with r l show ?thesis by (simp add: run_episode_def)
qed



lemma capture_same:
  assumes "same_responses R E1 E2" and "R w1 w2"
  shows "rel_sum (=) (rel_prod (=) R) (capture L E1 a w1 fs) (capture L E2 a w2 fs)"
proof (cases "render_arg a")
  case False
  with assms(2) show ?thesis by (simp add: capture_def)
next
  case True
  from assms have "rel_sum (=) (rel_prod (=) R) (render E1 w1) (render E2 w2)"
    by (simp add: same_responses_def)
  with True show ?thesis
    by (cases "render E1 w1"; cases "render E2 w2")
      (auto simp: capture_def split: pyleaf.splits)
qed

lemma loop_body_same:
  assumes "same_responses R E1 E2" and "same_locals R s1 s2"
  shows "rel_sum (=) (rel_prod (same_locals R) (=))
           (loop_body L agent E1 a s1) (loop_body L agent E2 a s2)"
proof -
  from assms(2) have eq: "key s2 = key s1" "frames s2 = frames s1" "obs s2 = obs s1"
    "ep_ret s2 = ep_ret s1" "ep_len s2 = ep_len s1" "history s2 = history s1"
    and R: "R (env_state s1) (env_state s2)"
    by (simp_all add: same_locals_def)
  show ?thesis
  proof (cases "obs_to_batched L (obs s1)")
    case Inl
    then show ?thesis by (simp add: loop_body_def eq)
  next
    case (Inr batched)
    note b = this
    obtain key' sub' where sp: "jax_random_split L (key s1) = (key', sub')"
      by (cases "jax_random_split L (key s1)")
    show ?thesis
    proof (cases "agent batched sub'")
      case Inl
      with b sp show ?thesis by (simp add: loop_body_def eq)
    next
      case (Inr sampled)
      note sm = this
      show ?thesis
      proof (cases "np_asarray L sampled")
        case Inl
        with b sp sm show ?thesis by (simp add: loop_body_def eq)
      next
        case (Inr arr)
        note ar = this
        show ?thesis
        proof (cases "index0 arr")
          case Inl
          with b sp sm ar show ?thesis by (simp add: loop_body_def eq)
        next
          case (Inr act)
          note ac = this
          from assms(1) R
          have st: "rel_sum (=) (rel_prod (=) R)
                      (step E1 (env_state s1) act) (step E2 (env_state s2) act)"
            by (simp add: same_responses_def)
          show ?thesis
          proof (cases "step E1 (env_state s1) act")
            case (Inl e)
            with st have "step E2 (env_state s2) act = Inl e"
              by (cases "step E2 (env_state s2) act") auto
            with Inl b sp sm ar ac show ?thesis by (simp add: loop_body_def eq)
          next
            case (Inr p)
            obtain ob' r tm tr v1 where p: "p = ((ob', r, tm, tr), v1)"
              by (cases p) auto
            from st Inr p obtain v2 where
              s2: "step E2 (env_state s2) act = Inr ((ob', r, tm, tr), v2)" and Rv: "R v1 v2"
              by (cases "step E2 (env_state s2) act") auto
            from capture_same [OF assms(1) Rv]
            have cp: "rel_sum (=) (rel_prod (=) R)
                        (capture L E1 a v1 (frames s1)) (capture L E2 a v2 (frames s1))" .
            show ?thesis
            proof (cases "capture L E1 a v1 (frames s1)")
              case (Inl e)
              with cp have "capture L E2 a v2 (frames s1) = Inl e"
                by (cases "capture L E2 a v2 (frames s1)") auto
              with Inl Inr p s2 b sp sm ar ac show ?thesis
                by (simp add: loop_body_def eq)
            next
              case (Inr q)
              note c1 = this
              obtain fs u1 where q: "q = (fs, u1)" by (cases q)
              from cp c1 q obtain u2 where
                c2: "capture L E2 a v2 (frames s1) = Inr (fs, u2)" and Ru: "R u1 u2"
                by (cases "capture L E2 a v2 (frames s1)") auto
              from \<open>step E1 (env_state s1) act = Inr p\<close> p s2 c1 q c2 Ru b sp sm ar ac
              show ?thesis
                by (simp add: loop_body_def eq same_locals_def)
            qed
          qed
        qed
      qed
    qed
  qed
qed

lemma episode_loop_same:
  assumes "same_responses R E1 E2" and "same_locals R s1 s2"
  shows "rel_sum (=) (same_locals R)
           (episode_loop L agent E1 a s1) (episode_loop L agent E2 a s2)"
  using assms
proof (induction L agent E1 a s1 arbitrary: s2 rule: episode_loop.induct)
  case (1 L agent E1 a s1)
  from loop_body_same [OF "1.prems"]
  have b: "rel_sum (=) (rel_prod (same_locals R) (=))
              (loop_body L agent E1 a s1) (loop_body L agent E2 a s2)" .
  show ?case
  proof (cases "loop_body L agent E1 a s1")
    case (Inl e)
    with b have "loop_body L agent E2 a s2 = Inl e"
      by (cases "loop_body L agent E2 a s2") auto
    with Inl show ?thesis
      by (simp add: episode_loop.simps [of L agent E1 a s1] episode_loop.simps [of L agent E2 a s2])
  next
    case (Inr p)
    obtain t1 stop where p: "p = (t1, stop)" by (cases p)
    from b Inr p obtain t2 where
      b2: "loop_body L agent E2 a s2 = Inr (t2, stop)" and t: "same_locals R t1 t2"
      by (cases "loop_body L agent E2 a s2") auto
    show ?thesis
    proof (cases stop)
      case True
      with Inr p b2 t show ?thesis
        by (simp add: episode_loop.simps [of L agent E1 a s1] episode_loop.simps [of L agent E2 a s2])
    next
      case False
      from "1.IH" [OF Inr p [symmetric] False "1.prems"(1) t] Inr p b2 False
      show ?thesis
        by (simp add: episode_loop.simps [of L agent E1 a s1] episode_loop.simps [of L agent E2 a s2])
    qed
  qed
qed

lemma capture_frames:
  assumes "capture L E a w fs = Inr (fs', w')"
    and "fs \<noteq> [] \<longrightarrow> imageio_mimsave L \<noteq> None"
  shows "fs' \<noteq> [] \<longrightarrow> imageio_mimsave L \<noteq> None"
  using assms
  by (auto simp: capture_def split: if_splits sum.splits prod.splits pyleaf.splits)

lemma loop_body_frames:
  assumes "loop_body L agent E a s = Inr (s', stop)"
    and "frames s \<noteq> [] \<longrightarrow> imageio_mimsave L \<noteq> None"
  shows "frames s' \<noteq> [] \<longrightarrow> imageio_mimsave L \<noteq> None"
proof -
  from assms(1) obtain w1 fs w2 where
    "capture L E a w1 (frames s) = Inr (fs, w2)" "frames s' = fs"
    by (elim loop_bodyE) simp
  with capture_frames [of L E a w1 "frames s" fs w2] assms(2) show ?thesis by simp
qed

lemma run_episode_frames:
  assumes "run_episode L agent E w a = Inr out" and "frames (final out) \<noteq> []"
  shows "imageio_mimsave L \<noteq> None"
proof -
  from assms(1) obtain ob w0 where
    loop: "episode_loop L agent E a
             \<lparr>key = jax_random_PRNGKey L 0, frames = [],
              obs = resize_top L (img_hw a) ob, ep_ret = 0, ep_len = 0,
              env_state = w0, history = []\<rparr> = Inr (final out)"
    by (auto simp: run_episode_def split: sum.splits prod.splits)
  let ?I = "\<lambda>s. frames s \<noteq> [] \<longrightarrow> imageio_mimsave L \<noteq> None"
  have "\<exists>u. ?I u \<and> loop_body L agent E a u = Inr (final out, True)"
  proof (rule episode_loop_invariant [OF loop])
    show "?I \<lparr>key = jax_random_PRNGKey L 0, frames = [],
              obs = resize_top L (img_hw a) ob, ep_ret = 0, ep_len = 0,
              env_state = w0, history = []\<rparr>"
      by simp
  next
    fix u u' assume "?I u" and "loop_body L agent E a u = Inr (u', False)"
    then show "?I u'" using loop_body_frames [of L agent E a u u' False] by blast
  qed
  then obtain u where "?I u" and "loop_body L agent E a u = Inr (final out, True)" by blast
  with loop_body_frames [of L agent E a u "final out" True] assms(2) show ?thesis by blast
qed

section \<open>Facts about the adapter\<close>

lemma sequence_map_rel:
  assumes "\<And>x. x \<in> set xs \<Longrightarrow> \<exists>y. g x = Inr y \<and> R x y"
  shows "\<exists>ys. sequence (map g xs) = Inr ys \<and> list_all2 R xs ys"
  using assms
proof (induction xs)
  case Nil
  then show ?case by simp
next
  case (Cons x xs)
  from Cons.prems [of x] obtain y where y: "g x = Inr y" "R x y" by auto
  from Cons.IH Cons.prems obtain ys where "sequence (map g xs) = Inr ys" "list_all2 R xs ys"
    by auto
  with y show ?case by simp
qed

lemma insort_key_rel:
  assumes "list_all2 Q xs ys" and "Q x y" and "\<And>a b. Q a b \<Longrightarrow> fst a = fst b"
  shows "list_all2 Q (insort_key fst x xs) (insort_key fst y ys)"
  using assms(1)
proof (induction rule: list_all2_induct)
  case Nil
  with assms(2) show ?case by simp
next
  case (Cons a as b bs)
  from assms(3) [OF assms(2)] assms(3) [OF Cons.hyps(1)]
  have "fst x = fst y" "fst a = fst b" .
  with Cons assms(2) show ?case by simp
qed

lemma sort_key_rel:
  assumes "list_all2 Q xs ys" and "\<And>a b. Q a b \<Longrightarrow> fst a = fst b"
  shows "list_all2 Q (sort_key fst xs) (sort_key fst ys)"
  using assms(1)
proof (induction rule: list_all2_induct)
  case Nil
  then show ?case by simp
next
  case (Cons a as b bs)
  from insort_key_rel [of Q, OF Cons.IH Cons.hyps(1) assms(2)] show ?case by simp
qed

lemma sequence_items_rel:
  assumes "list_all2 (\<lambda>a b. fst a = fst b \<and> (\<exists>v. snd b = Inr v \<and> S (snd a) v)) xs ys"
  shows "\<exists>zs. sequence (map item_result ys) = Inr zs \<and> list_all2 (rel_prod (=) S) xs zs"
  using assms
proof (induction rule: list_all2_induct)
  case Nil
  then show ?case by simp
next
  case (Cons a as b bs)
  then obtain zs v where "sequence (map item_result bs) = Inr zs"
    "list_all2 (rel_prod (=) S) as zs" "snd b = Inr v" "S (snd a) v" "fst a = fst b"
    by auto
  then show ?case by (cases a; cases b) auto
qed

lemma tree_map_rel:
  assumes "\<And>x. x \<in> set_pytree t \<Longrightarrow> \<exists>y. f x = Inr y \<and> R x y"
  shows "\<exists>t'. tree_map f t = Inr t' \<and> rel_pytree R (sort_dicts t) t'"
  using assms
proof (induction t)
  case (Leaf x)
  then show ?case by auto
next
  case (PyDict kvs)
  let ?Q = "\<lambda>a b. fst a = fst b \<and> (\<exists>v. snd b = Inr v \<and> rel_pytree R (snd a) v)"
  have "?Q (map_prod id sort_dicts kv) (map_prod id (tree_map f) kv)" if "kv \<in> set kvs" for kv
  proof -
    obtain k v where [simp]: "kv = (k, v)" by (cases kv)
    have "\<exists>t'. tree_map f v = Inr t' \<and> rel_pytree R (sort_dicts v) t'"
      using PyDict.IH [of kv v] PyDict.prems that by fastforce
    then show ?thesis by auto
  qed
  then have "list_all2 ?Q (map (map_prod id sort_dicts) kvs) (map (map_prod id (tree_map f)) kvs)"
    by (simp add: list_all2_map1 list_all2_map2 list_all2_same)
  then have "list_all2 ?Q (sort_key fst (map (map_prod id sort_dicts) kvs))
               (sort_key fst (map (map_prod id (tree_map f)) kvs))"
    by (rule sort_key_rel) simp
  from sequence_items_rel [OF this] show ?case by auto
next
  case (PyList ts)
  have "\<exists>ys. sequence (map (tree_map f) ts) = Inr ys
          \<and> list_all2 (\<lambda>t. rel_pytree R (sort_dicts t)) ts ys"
  proof (rule sequence_map_rel)
    fix t assume "t \<in> set ts"
    then show "\<exists>y. tree_map f t = Inr y \<and> rel_pytree R (sort_dicts t) y"
      using PyList.IH [of t] PyList.prems by fastforce
  qed
  then show ?case by (auto simp: list_all2_map1)
next
  case (PyTuple ts)
  have "\<exists>ys. sequence (map (tree_map f) ts) = Inr ys
          \<and> list_all2 (\<lambda>t. rel_pytree R (sort_dicts t)) ts ys"
  proof (rule sequence_map_rel)
    fix t assume "t \<in> set ts"
    then show "\<exists>y. tree_map f t = Inr y \<and> rel_pytree R (sort_dicts t) y"
      using PyTuple.IH [of t] PyTuple.prems by fastforce
  qed
  then show ?case by (auto simp: list_all2_map1)
next
  case PyNone
  then show ?case by simp
qed

lemma sort_dicts_leaves: "set_pytree (sort_dicts t) = set_pytree t"
proof (induction t)
  case (PyDict kvs)
  have "set_pytree (sort_dicts v) = set_pytree v" if "(k, v) \<in> set kvs" for k v
    using PyDict [of "(k, v)" v] that by simp
  then show ?case by (force simp: image_iff)
qed auto

lemma map_of_insort_key:
  assumes "fst x \<notin> fst ` set xs"
  shows "map_of (insort_key fst x xs) = (map_of xs)(fst x \<mapsto> snd x)"
  using assms
proof (induction xs)
  case Nil
  then show ?case by (cases x) simp
next
  case (Cons a as)
  then show ?case by (cases x; cases a) (auto simp: fun_upd_twist)
qed

lemma map_of_sort_key:
  assumes "distinct (map fst xs)"
  shows "map_of (sort_key fst xs) = map_of xs"
  using assms
proof (induction xs)
  case Nil
  then show ?case by simp
next
  case (Cons x xs)
  then have "fst x \<notin> fst ` set (sort_key fst xs)" by simp
  from map_of_insort_key [OF this] Cons show ?case by (cases x) simp
qed

lemma sort_dicts_field:
  assumes "distinct (map fst kvs)"
  shows "field (sort_dicts (PyDict kvs)) k = map_option sort_dicts (field (PyDict kvs) k)"
proof -
  have "distinct (map fst (map (map_prod id sort_dicts) kvs))"
    using assms by (simp add: comp_def)
  then have "map_of (sort_key fst (map (map_prod id sort_dicts) kvs))
      = map_of (map (map_prod id sort_dicts) kvs)"
    by (rule map_of_sort_key)
  moreover have "map_of (map (map_prod id sort_dicts) kvs) k
      = map_option sort_dicts (map_of kvs k)"
    by (induction kvs) auto
  ultimately show ?thesis by simp
qed

lemma sequence_map_Inl:
  assumes "sequence (map g xs) = Inl e"
  shows "\<exists>x \<in> set xs. g x = Inl e"
  using assms
proof (induction xs)
  case Nil
  then show ?case by simp
next
  case (Cons x xs)
  then show ?case by (cases "g x") (auto split: sum.splits)
qed

lemma sequence_map_Inr_all:
  assumes "sequence (map g xs) = Inr ys" and "x \<in> set xs"
  shows "\<not> isl (g x)"
  using assms
proof (induction xs arbitrary: ys)
  case Nil
  then show ?case by simp
next
  case (Cons z zs)
  then show ?case by (cases "g z") (auto split: sum.splits)
qed

lemma tree_map_Inl:
  assumes "tree_map f t = Inl e"
  shows "\<exists>x \<in> set_pytree t. f x = Inl e"
  using assms
proof (induction t)
  case (Leaf x)
  then show ?case by (cases "f x") auto
next
  case (PyDict kvs)
  let ?ys = "sort_key fst (map (map_prod id (tree_map f)) kvs)"
  from PyDict.prems have "sequence (map item_result ?ys) = Inl e"
    by (cases "sequence (map item_result ?ys)") auto
  from sequence_map_Inl [OF this] obtain y where "y \<in> set ?ys" "item_result y = Inl e"
    by blast
  then obtain kv where kvs: "kv \<in> set kvs"
    and ir: "item_result (map_prod id (tree_map f) kv) = Inl e"
    by auto
  obtain k v where "kv = (k, v)" by (cases kv)
  with kvs ir have kv: "(k, v) \<in> set kvs" and "item_result (k, tree_map f v) = Inl e"
    by simp_all
  then have "tree_map f v = Inl e" by (cases "tree_map f v") auto
  with PyDict.IH [of "(k, v)" v] kv obtain x where "x \<in> set_pytree v" "f x = Inl e"
    by auto
  with kv show ?case by (auto intro!: bexI [of _ x] bexI [of _ "(k, v)"])
next
  case (PyList ts)
  then have "sequence (map (tree_map f) ts) = Inl e"
    by (cases "sequence (map (tree_map f) ts)") auto
  from sequence_map_Inl [OF this] PyList.IH show ?case by fastforce
next
  case (PyTuple ts)
  then have "sequence (map (tree_map f) ts) = Inl e"
    by (cases "sequence (map (tree_map f) ts)") auto
  from sequence_map_Inl [OF this] PyTuple.IH show ?case by fastforce
next
  case PyNone
  then show ?case by simp
qed

lemma tree_map_Inr_all:
  assumes "tree_map f t = Inr t'" and "x \<in> set_pytree t"
  shows "\<not> isl (f x)"
  using assms
proof (induction t arbitrary: t')
  case (Leaf y)
  then show ?case by (cases "f y") auto
next
  case (PyDict kvs)
  let ?ys = "sort_key fst (map (map_prod id (tree_map f)) kvs)"
  from PyDict.prems(2) obtain k v where kv: "(k, v) \<in> set kvs" and x: "x \<in> set_pytree v"
    by auto
  from PyDict.prems(1) obtain zs where "sequence (map item_result ?ys) = Inr zs"
    by (cases "sequence (map item_result ?ys)") auto
  moreover from kv have "(k, tree_map f v) \<in> set ?ys" by force
  ultimately have "\<not> isl (item_result (k, tree_map f v))"
    by (rule sequence_map_Inr_all)
  then obtain v' where "tree_map f v = Inr v'"
    by (cases "tree_map f v") auto
  with PyDict.IH [of "(k, v)" v v'] kv x show ?case by auto
next
  case (PyList ts)
  from PyList.prems(2) obtain t where t: "t \<in> set ts" and x: "x \<in> set_pytree t" by auto
  from PyList.prems(1) obtain ys where "sequence (map (tree_map f) ts) = Inr ys"
    by (cases "sequence (map (tree_map f) ts)") auto
  from sequence_map_Inr_all [OF this t] obtain u where "tree_map f t = Inr u"
    by (cases "tree_map f t") auto
  with PyList.IH [of t u] t x show ?case by auto
next
  case (PyTuple ts)
  from PyTuple.prems(2) obtain t where t: "t \<in> set ts" and x: "x \<in> set_pytree t" by auto
  from PyTuple.prems(1) obtain ys where "sequence (map (tree_map f) ts) = Inr ys"
    by (cases "sequence (map (tree_map f) ts)") auto
  from sequence_map_Inr_all [OF this t] obtain u where "tree_map f t = Inr u"
    by (cases "tree_map f t") auto
  with PyTuple.IH [of t u] t x show ?case by auto
next
  case PyNone
  then show ?case by simp
qed

lemma obs_to_batched_Inl:
  assumes "obs_to_batched L ob = Inl e"
  shows "\<exists>x \<in> set_pytree ob. np_asarray L x = Inl e"
proof -
  from tree_map_Inl [OF assms [unfolded obs_to_batched_def]] obtain x where
    "x \<in> set_pytree ob" "map_sum id newaxis (np_asarray L x) = Inl e" by blast
  then show ?thesis by (cases "np_asarray L x") auto
qed

lemma obs_to_batched_rejects:
  assumes "x \<in> set_pytree ob" and "isl (np_asarray L x)"
  shows "isl (obs_to_batched L ob)"
proof (rule ccontr)
  assume "\<not> isl (obs_to_batched L ob)"
  then obtain b where "obs_to_batched L ob = Inr b" by (cases "obs_to_batched L ob") auto
  from tree_map_Inr_all [OF this [unfolded obs_to_batched_def] assms(1)] assms(2)
  show False by (cases "np_asarray L x") auto
qed

lemma episode_loop_batching_fails:
  assumes "(next_pass L agent E a)\<^sup>*\<^sup>* s s'" and "obs_to_batched L (obs s') = Inl e"
  shows "episode_loop L agent E a s = Inl e"
  using assms
proof (induction rule: converse_rtranclp_induct)
  case base
  then show ?case by (simp add: episode_loop.simps [of L agent E a s'] loop_body_def)
next
  case (step y z)
  then show ?case by (simp add: episode_loop.simps [of L agent E a y] next_pass_def)
qed

lemma update_keeps_others:
  "filter (\<lambda>kv. fst kv \<noteq> k) (AList.update k v al) = filter (\<lambda>kv. fst kv \<noteq> k) al"
  by (induction al) auto

lemma update_keeps_keys:
  assumes "map_of al k = Some x"
  shows "map fst (AList.update k v al) = map fst al"
  using assms by (induction al) (auto split: if_splits)

lemma resize_top_applied:
  assumes "pixels_top ob = Some (Leaf (Array a))"
    and "length (shape a) = 3" and "\<not> has_resolution a hw"
    and "cv2_resize L = Some resize" and "resize a (snd hw, fst hw) INTER_AREA = Inr r"
  shows "only_top_replaced ob (resize_top L hw ob) r"
proof -
  from assms(1) obtain items pixels where ob: "ob = PyDict items"
    and px: "map_of items ''pixels'' = Some (PyDict pixels)"
    and top: "map_of pixels ''top'' = Some (Leaf (Array a))"
    by (cases ob) (auto simp: pixels_top_def split: option.splits pytree.splits)
  obtain H W where hw: "hw = (H, W)" by (cases hw)
  from assms(2-5) ob px top hw
  have r: "resize_top L hw (PyDict items) =
      PyDict (AList.update ''pixels''
        (PyDict (AList.update ''top'' (Leaf (Array r)) pixels)) items)"
    by (simp add: resize_top_def has_resolution_def)
  show ?thesis
    unfolding r ob only_top_replaced_def
    by (simp add: update_keeps_others update_keeps_keys [OF px] update_keeps_keys [OF top]
        px pixels_top_def update_conv')
qed

lemma resize_top_changed:
  assumes "resize_top L hw ob \<noteq> ob"
  shows "\<exists>a resize r. pixels_top ob = Some (Leaf (Array a)) \<and> length (shape a) = 3
           \<and> \<not> has_resolution a hw \<and> cv2_resize L = Some resize
           \<and> resize a (snd hw, fst hw) INTER_AREA = Inr r"
  using assms
  by (auto simp: resize_top_def pixels_top_def has_resolution_def
      split: option.splits pytree.splits pyleaf.splits sum.splits prod.splits if_splits)


lemmas eval_defs = run_episode_def episode_loop.simps loop_body_def ref_libs_def ref_agent_def
  counting_env_def state_ob_def default_args_def obs_to_batched_def resize_top_def capture_def
  save_video_def index0_def newaxis_def endless_env_def ended_env_def
  render_only_args_def record_args_def ref_dirname_def spec_PRNGKey_def spec_split_def
  with_spec_prng_def

text \<open>The reference collaborators never raise.\<close>

lemma ref_libs_asarray: "\<exists>a. np_asarray ref_libs x = Inr a"
  by (cases x) (auto simp: ref_libs_def split: scalar.splits)

lemma ref_libs_batched: "\<exists>b. obs_to_batched ref_libs ob = Inr b"
proof -
  have "\<exists>b. tree_map (\<lambda>x. map_sum id newaxis (np_asarray ref_libs x)) ob = Inr b
          \<and> rel_pytree (\<lambda>x y. True) (sort_dicts ob) b"
  proof (rule tree_map_rel)
    fix x :: "(scalar, scalar) pyleaf"
    from ref_libs_asarray [of x] obtain a where "np_asarray ref_libs x = Inr a" ..
    then show "\<exists>y. map_sum id newaxis (np_asarray ref_libs x) = Inr y \<and> True" by simp
  qed
  then show ?thesis by (auto simp: obs_to_batched_def)
qed

lemma ref_loop_body_total:
  "\<not> isl (loop_body ref_libs ref_agent (counting_env ob rew fin) a s)"
proof -
  from ref_libs_batched [of "obs s"] obtain b where "obs_to_batched ref_libs (obs s) = Inr b" ..
  then show ?thesis
    by (simp add: loop_body_def ref_agent_def counting_env_def index0_def capture_def
        split: prod.splits)
qed



section \<open>Properties of the observation adapter\<close>

text \<open>
  C4.  For an observation all of whose leaves \<open>np.asarray\<close> accepts (in particular any
  nested structure of arrays, which \<open>np.asarray\<close> returns as they are), the batching
  adapter returns a structure with the same containers, the same keys and the same
  nesting, in which every leaf is the array of the corresponding input leaf with one new
  leading dimension of size 1 and the same dtype and elements.  The keys of a dict come
  back in ascending order, whatever their order in the input: the result is related, leaf
  by leaf, to the input with its dicts sorted, and that is the input itself up to the
  order of dict items (the same keys with the same values, for dicts without repeated
  keys).  The adapter is a function of its argument only; it has no state to change and
  returns a new value.
\<close>

theorem obs_to_batched_adds_leading_dim:
  assumes "pred_pytree (\<lambda>x. \<not> isl (np_asarray L x)) ob"
  shows "(\<exists>b. obs_to_batched L ob = Inr b
            \<and> rel_pytree (\<lambda>x y. \<exists>a. np_asarray L x = Inr a \<and> adds_leading_dim a y)
                 (sort_dicts ob) b)
         \<and> set_pytree (sort_dicts ob) = set_pytree ob
         \<and> (\<forall>kvs k. ob = PyDict kvs \<and> distinct (map fst kvs) \<longrightarrow>
               field (sort_dicts ob) k = map_option sort_dicts (field ob k))"
proof (intro conjI)
  show "\<exists>b. obs_to_batched L ob = Inr b
          \<and> rel_pytree (\<lambda>x y. \<exists>a. np_asarray L x = Inr a \<and> adds_leading_dim a y)
               (sort_dicts ob) b"
    unfolding obs_to_batched_def
  proof (rule tree_map_rel)
    fix x assume "x \<in> set_pytree ob"
    with assms obtain a where "np_asarray L x = Inr a"
      by (cases "np_asarray L x") (auto simp: pytree.pred_set)
    then show "\<exists>y. map_sum id newaxis (np_asarray L x) = Inr y
                 \<and> (\<exists>a. np_asarray L x = Inr a \<and> adds_leading_dim a y)"
      by (simp add: adds_leading_dim_def newaxis_def)
  qed
  show "set_pytree (sort_dicts ob) = set_pytree ob"
    by (rule sort_dicts_leaves)
  show "\<forall>kvs k. ob = PyDict kvs \<and> distinct (map fst kvs) \<longrightarrow>
          field (sort_dicts ob) k = map_option sort_dicts (field ob k)"
  proof (intro allI impI)
    fix kvs k assume "ob = PyDict kvs \<and> distinct (map fst kvs)"
    then have "ob = PyDict kvs" and "distinct (map fst kvs)" by simp_all
    then show "field (sort_dicts ob) k = map_option sort_dicts (field ob k)"
      by (simp only: sort_dicts_field)
  qed
qed

theorem obs_to_batched_adds_leading_dim_witness:
  "pred_pytree (\<lambda>x. \<not> isl (np_asarray ref_libs x)) pixel_ob
   \<and> sort_dicts pixel_ob =
       PyDict [(''pixels'', PyDict [(''top'',
                  Leaf (Array (NdArray [2, 2, 1] DUInt [Num 7, Num 8, Num 9, Num 10])))]),
               (''state'', Leaf (Array (NdArray [2] DFloat [Num 1, Num 2])))]
   \<and> obs_to_batched ref_libs pixel_ob =
       Inr (PyDict [(''pixels'', PyDict [(''top'',
                       Leaf (NdArray [1, 2, 2, 1] DUInt [Num 7, Num 8, Num 9, Num 10]))]),
                    (''state'', Leaf (NdArray [1, 2] DFloat [Num 1, Num 2]))])
   \<and> rel_pytree (\<lambda>x y. \<exists>a. np_asarray ref_libs x = Inr a \<and> adds_leading_dim a y)
       (sort_dicts pixel_ob)
       (PyDict [(''pixels'', PyDict [(''top'',
                   Leaf (NdArray [1, 2, 2, 1] DUInt [Num 7, Num 8, Num 9, Num 10]))]),
                (''state'', Leaf (NdArray [1, 2] DFloat [Num 1, Num 2]))])
   \<and> field (sort_dicts pixel_ob) ''state'' = map_option sort_dicts (field pixel_ob ''state'')"
proof -
  have h: "pred_pytree (\<lambda>x. \<not> isl (np_asarray ref_libs x)) pixel_ob"
    by (simp add: pixel_ob_def)
  have s: "sort_dicts pixel_ob =
       PyDict [(''pixels'', PyDict [(''top'',
                  Leaf (Array (NdArray [2, 2, 1] DUInt [Num 7, Num 8, Num 9, Num 10])))]),
               (''state'', Leaf (Array (NdArray [2] DFloat [Num 1, Num 2])))]"
    by (simp add: pixel_ob_def)
  have e: "obs_to_batched ref_libs pixel_ob =
       Inr (PyDict [(''pixels'', PyDict [(''top'',
                       Leaf (NdArray [1, 2, 2, 1] DUInt [Num 7, Num 8, Num 9, Num 10]))]),
                    (''state'', Leaf (NdArray [1, 2] DFloat [Num 1, Num 2]))])"
    by (simp add: pixel_ob_def obs_to_batched_def newaxis_def)
  have d: "pixel_ob = PyDict
       [(''state'', Leaf (Array (NdArray [2] DFloat [Num 1, Num 2]))),
        (''pixels'', PyDict [(''top'',
           Leaf (Array (NdArray [2, 2, 1] DUInt [Num 7, Num 8, Num 9, Num 10])))])]
     \<and> distinct (map fst
       [(''state'', Leaf (Array (NdArray [2] DFloat [Num 1, Num 2]))),
        (''pixels'', PyDict [(''top'',
           Leaf (Array (NdArray [2, 2, 1] DUInt [Num 7, Num 8, Num 9, Num 10])))])])"
    by (simp add: pixel_ob_def)
  from obs_to_batched_adds_leading_dim [OF h] e d
  have "rel_pytree (\<lambda>x y. \<exists>a. np_asarray ref_libs x = Inr a \<and> adds_leading_dim a y)
       (sort_dicts pixel_ob)
       (PyDict [(''pixels'', PyDict [(''top'',
                   Leaf (NdArray [1, 2, 2, 1] DUInt [Num 7, Num 8, Num 9, Num 10]))]),
                (''state'', Leaf (NdArray [1, 2] DFloat [Num 1, Num 2]))])"
    and "field (sort_dicts pixel_ob) ''state'' = map_option sort_dicts (field pixel_ob ''state'')"
    by auto
  with h s e show ?thesis by (intro conjI)
qed

text \<open>
  C7, as amended.  The adapter has no error of its own and checks no leaf.  If
  \<open>np.asarray\<close> raises on a leaf of the observation, the adapter fails with an exception
  that \<open>np.asarray\<close> raised on a leaf, unchanged; if \<open>np.asarray\<close> accepts every leaf
  the adapter succeeds, whatever the dtypes of the arrays it gets.  A failure of the
  adapter at any pass of the loop is the exception of \<open>run_episode\<close>: nothing catches it.
  The counterexample to the claim as written: \<open>np.asarray\<close> turns the string \<open>abc\<close>
  into a 0-dimensional array of strings, which is not numeric, and the adapter returns it
  batched; and where \<open>np.asarray\<close> rejects the string, the adapter fails with that
  ValueError, not with MalformedObservation.
\<close>

theorem obs_to_batched_failure_is_fatal:
  "(x \<in> set_pytree ob \<and> isl (np_asarray L x) \<longrightarrow>
      (\<exists>e y. obs_to_batched L ob = Inl e \<and> y \<in> set_pytree ob \<and> np_asarray L y = Inl e))
   \<and> (pred_pytree (\<lambda>y. \<not> isl (np_asarray L y)) ob \<longrightarrow> \<not> isl (obs_to_batched L ob))
   \<and> (reset E w = Inr (ob0, w0) \<and> (next_pass L agent E a)\<^sup>*\<^sup>* (initial_locals L a ob0 w0) s
        \<and> obs_to_batched L (obs s) = Inl e \<longrightarrow>
      run_episode L agent E w a = Inl e)"
proof (intro conjI impI)
  assume "x \<in> set_pytree ob \<and> isl (np_asarray L x)"
  then have "isl (obs_to_batched L ob)" using obs_to_batched_rejects by blast
  then obtain e where e: "obs_to_batched L ob = Inl e" by (cases "obs_to_batched L ob") auto
  from obs_to_batched_Inl [OF e] e
  show "\<exists>e y. obs_to_batched L ob = Inl e \<and> y \<in> set_pytree ob \<and> np_asarray L y = Inl e"
    by blast
next
  assume "pred_pytree (\<lambda>y. \<not> isl (np_asarray L y)) ob"
  then show "\<not> isl (obs_to_batched L ob)"
    using obs_to_batched_Inl [of L ob] by (cases "obs_to_batched L ob") (auto simp: pytree.pred_set)
next
  assume "reset E w = Inr (ob0, w0) \<and> (next_pass L agent E a)\<^sup>*\<^sup>* (initial_locals L a ob0 w0) s
        \<and> obs_to_batched L (obs s) = Inl e"
  then have r: "reset E w = Inr (ob0, w0)"
    and "episode_loop L agent E a (initial_locals L a ob0 w0) = Inl e"
    using episode_loop_batching_fails [of L agent E a "initial_locals L a ob0 w0" s e] by simp_all
  then show "run_episode L agent E w a = Inl e"
    by (simp add: run_episode_def initial_locals_def)
qed


theorem obs_to_batched_failure_is_fatal_witness:
  "PyObject (Str ''abc'') \<in> set_pytree str_ob
   \<and> isl (np_asarray strict_libs (PyObject (Str ''abc'')))
   \<and> obs_to_batched strict_libs str_ob = Inl (Exn ''ValueError'')
   \<and> pred_pytree (\<lambda>y. \<not> isl (np_asarray ref_libs y)) pixel_ob
   \<and> \<not> isl (obs_to_batched ref_libs pixel_ob)
   \<and> reset str_env 0 = Inr (str_ob, 0)
   \<and> obs (initial_locals strict_libs default_args str_ob 0
          :: (int \<times> bool list, scalar, scalar, real, nat) locals) = str_ob
   \<and> run_episode strict_libs ref_agent str_env 0 default_args = Inl (Exn ''ValueError'')"
proof -
  have x: "PyObject (Str ''abc'') \<in> set_pytree str_ob"
    and i: "isl (np_asarray strict_libs (PyObject (Str ''abc'')))"
    by (simp_all add: str_ob_def strict_libs_def)
  have np: "np_asarray strict_libs y = Inl e \<Longrightarrow> e = Exn ''ValueError''" for y e
    by (cases y) (auto simp: strict_libs_def split: scalar.splits)
  from obs_to_batched_failure_is_fatal
    [of "PyObject (Str ''abc'')" str_ob strict_libs, THEN conjunct1] x i
  obtain e y where "obs_to_batched strict_libs str_ob = Inl e" "np_asarray strict_libs y = Inl e"
    by blast
  with np have b: "obs_to_batched strict_libs str_ob = Inl (Exn ''ValueError'')" by blast
  have p: "pred_pytree (\<lambda>y. \<not> isl (np_asarray ref_libs y)) pixel_ob"
    by (simp add: pixel_ob_def)
  with obs_to_batched_failure_is_fatal [of _ pixel_ob ref_libs, THEN conjunct2, THEN conjunct1]
  have q: "\<not> isl (obs_to_batched ref_libs pixel_ob)" by blast
  let ?s0 = "initial_locals strict_libs default_args str_ob 0
          :: (int \<times> bool list, scalar, scalar, real, nat) locals"
  have r: "reset str_env 0 = Inr (str_ob, 0)"
    by (simp add: str_env_def counting_env_def)
  have o: "obs ?s0 = str_ob"
    by (simp add: initial_locals_def resize_top_def str_ob_def strict_libs_def ref_libs_def)
  have "(next_pass strict_libs ref_agent str_env default_args)\<^sup>*\<^sup>* ?s0 ?s0" by simp
  with obs_to_batched_failure_is_fatal
    [of _ _ strict_libs str_env 0 str_ob 0 ref_agent default_args ?s0 "Exn ''ValueError''",
      THEN conjunct2, THEN conjunct2]
    r o b
  have "run_episode strict_libs ref_agent str_env 0 default_args = Inl (Exn ''ValueError'')"
    by simp
  with x i b p q r o show ?thesis by simp
qed

theorem obs_to_batched_no_malformed_counterexample:
  "np_asarray ref_libs (PyObject (Str ''abc'')) = Inr (NdArray [] DStr [Str ''abc''])
   \<and> \<not> numeric DStr
   \<and> obs_to_batched ref_libs str_ob = Inr (Leaf (NdArray [1] DStr [Str ''abc'']))
   \<and> obs_to_batched strict_libs str_ob = Inl (Exn ''ValueError'')
   \<and> obs_to_batched strict_libs str_ob \<noteq> Inl (Exn ''MalformedObservation'')"
  by (simp add: ref_libs_def strict_libs_def str_ob_def obs_to_batched_def newaxis_def
      numeric_def)

text \<open>
  C5.  \<open>_resize_top\<close> changes an observation only when it is a dict whose
  \<open>pixels\<close> entry is a dict whose \<open>top\<close> entry is an array of 3 dimensions with a
  height and width other than the target, cv2 was imported and \<open>cv2.resize\<close> returned.
  Then the result is the observation with only that entry replaced by what
  \<open>cv2.resize(img, (W, H), INTER_AREA)\<close> returned: the keys of both dicts and all their
  other entries are as before; given the contract of \<open>cv2.resize\<close> (its result is
  \<open>H\<close> by \<open>W\<close>), that entry has the target resolution.  When cv2 is missing, the field
  is absent, or \<open>cv2.resize\<close> raises, the observation is returned as it was.
  \<open>_resize_top\<close> has no exceptional result at all (its body is inside
  \<open>try ... except Exception: pass\<close>), so it cannot abort the episode.
\<close>

theorem resize_top_only_visual_field:
  "(resize_top L hw ob \<noteq> ob \<longrightarrow>
      (\<exists>a resize r. pixels_top ob = Some (Leaf (Array a)) \<and> length (shape a) = 3
         \<and> \<not> has_resolution a hw \<and> cv2_resize L = Some resize
         \<and> resize a (snd hw, fst hw) INTER_AREA = Inr r))
   \<and> (pixels_top ob = Some (Leaf (Array a)) \<and> length (shape a) = 3
        \<and> \<not> has_resolution a hw \<and> cv2_resize L = Some resize
        \<and> resize a (snd hw, fst hw) INTER_AREA = Inr r \<longrightarrow>
      only_top_replaced ob (resize_top L hw ob) r \<and> (cv2_contract L \<longrightarrow> has_resolution r hw))
   \<and> (cv2_resize L = None \<or> pixels_top ob = None
        \<or> (\<exists>resize a e. cv2_resize L = Some resize \<and> pixels_top ob = Some (Leaf (Array a))
              \<and> resize a (snd hw, fst hw) INTER_AREA = Inl e) \<longrightarrow>
      resize_top L hw ob = ob)"
proof (intro conjI impI)
  assume "resize_top L hw ob \<noteq> ob"
  then show "\<exists>a resize r. pixels_top ob = Some (Leaf (Array a)) \<and> length (shape a) = 3
         \<and> \<not> has_resolution a hw \<and> cv2_resize L = Some resize
         \<and> resize a (snd hw, fst hw) INTER_AREA = Inr r"
    by (rule resize_top_changed)
next
  assume h: "pixels_top ob = Some (Leaf (Array a)) \<and> length (shape a) = 3
        \<and> \<not> has_resolution a hw \<and> cv2_resize L = Some resize
        \<and> resize a (snd hw, fst hw) INTER_AREA = Inr r"
  then show "only_top_replaced ob (resize_top L hw ob) r"
    using resize_top_applied [of ob a hw L resize r] by blast
  assume "cv2_contract L"
  with h have "has_resolution r (fst hw, snd hw)"
    unfolding cv2_contract_def by blast
  then show "has_resolution r hw" by simp
next
  assume skip: "cv2_resize L = None \<or> pixels_top ob = None
        \<or> (\<exists>resize a e. cv2_resize L = Some resize \<and> pixels_top ob = Some (Leaf (Array a))
              \<and> resize a (snd hw, fst hw) INTER_AREA = Inl e)"
  show "resize_top L hw ob = ob"
  proof (rule ccontr)
    assume "resize_top L hw ob \<noteq> ob"
    from resize_top_changed [OF this] skip show False by auto
  qed
qed

theorem resize_top_only_visual_field_witness:
  "pixels_top pixel_ob = Some (Leaf (Array (NdArray [2, 2, 1] DUInt [Num 7, Num 8, Num 9, Num 10])))
   \<and> \<not> has_resolution (NdArray [2, 2, 1] DUInt [Num 7, Num 8, Num 9, Num 10]) (240, 320)
   \<and> cv2_contract ref_libs
   \<and> resize_top ref_libs (240, 320) pixel_ob =
       PyDict [(''state'', Leaf (Array (NdArray [2] DFloat [Num 1, Num 2]))),
               (''pixels'', PyDict [(''top'', Leaf (Array (NdArray [240, 320, 1] DUInt [])))])]
   \<and> only_top_replaced pixel_ob (resize_top ref_libs (240, 320) pixel_ob)
         (NdArray [240, 320, 1] DUInt [])
   \<and> has_resolution (NdArray [240, 320, 1] DUInt [] :: scalar ndarray) (240, 320)
   \<and> pixels_top state_ob = None
   \<and> resize_top ref_libs (240, 320) state_ob = state_ob
   \<and> resize_top (ref_libs\<lparr>cv2_resize := None\<rparr>) (240, 320) pixel_ob = pixel_ob"
proof -
  let ?img = "NdArray [2, 2, 1] DUInt [Num 7, Num 8, Num 9, Num 10]"
  let ?out = "NdArray [240, 320, 1] DUInt [] :: scalar ndarray"
  have p: "pixels_top pixel_ob = Some (Leaf (Array ?img))"
    by (simp add: pixels_top_def pixel_ob_def)
  have n: "length (shape ?img) = 3" "\<not> has_resolution ?img (240, 320)"
    by (simp_all add: has_resolution_def)
  obtain resize where c: "cv2_resize ref_libs = Some resize"
    and r: "resize ?img (snd (240 :: int, 320 :: int), fst (240 :: int, 320 :: int)) INTER_AREA
              = Inr ?out"
    by (simp add: ref_libs_def)
  have k: "cv2_contract ref_libs"
    by (auto simp: cv2_contract_def ref_libs_def has_resolution_def split: if_splits)
  from resize_top_only_visual_field
    [of ref_libs "(240, 320)" pixel_ob ?img resize ?out, THEN conjunct2, THEN conjunct1]
    p n c r k
  have a: "only_top_replaced pixel_ob (resize_top ref_libs (240, 320) pixel_ob) ?out"
    and b: "has_resolution ?out (240, 320)"
    by blast+
  have e: "resize_top ref_libs (240, 320) pixel_ob =
       PyDict [(''state'', Leaf (Array (NdArray [2] DFloat [Num 1, Num 2]))),
               (''pixels'', PyDict [(''top'', Leaf (Array ?out))])]"
    by (simp add: resize_top_def ref_libs_def pixel_ob_def)
  have s: "pixels_top state_ob = None"
    by (simp add: pixels_top_def state_ob_def)
  with resize_top_only_visual_field
    [of ref_libs "(240, 320)" state_ob, THEN conjunct2, THEN conjunct2]
  have u: "resize_top ref_libs (240, 320) state_ob = state_ob" by blast
  have "cv2_resize (ref_libs\<lparr>cv2_resize := None\<rparr>) = None" by simp
  with resize_top_only_visual_field
    [of "ref_libs\<lparr>cv2_resize := None\<rparr>" "(240, 320)" pixel_ob, THEN conjunct2, THEN conjunct2]
  have v: "resize_top (ref_libs\<lparr>cv2_resize := None\<rparr>) (240, 320) pixel_ob = pixel_ob"
    by blast
  from p n(2) k e a b s u v show ?thesis by (intro conjI)
qed

section \<open>Properties of the episode runner\<close>

text \<open>
  C1, as amended.  The loop of \<open>run_episode\<close> always ends, and when nothing raises the
  call returns.  A call that returns ended its loop at the first step at which the
  environment reported \<open>terminated\<close> or \<open>truncated\<close> or the length had reached the
  ceiling: the last step met the condition and no earlier one did.  The body runs before
  the test, so the returned length is at most the larger of 1 and the ceiling: at most the
  ceiling when the ceiling is at least 1, and 1 when the ceiling is 0 or negative.  For an
  environment that never reports termination or truncation the length is exactly that
  bound, 1000 with the default ceiling (the witness).  The claim as written, "at most the
  ceiling" for every call, fails for ceiling 0, where the length is 1 (the
  counterexample).
\<close>

theorem run_episode_loop_ends:
  "(run_episode L agent E w a = Inr out \<longrightarrow>
      (\<exists>h x. history (final out) = h @ [x]
         \<and> length' (result out) = int (length h) + 1
         \<and> (terminated x \<or> truncated x \<or> max_steps a \<le> length' (result out))
         \<and> (\<forall>i < length h. \<not> terminated (h ! i) \<and> \<not> truncated (h ! i) \<and> int (i + 1) < max_steps a)
         \<and> length' (result out) \<le> max 1 (max_steps a)
         \<and> (never_ends E \<longrightarrow> length' (result out) = max 1 (max_steps a))))
   \<and> (\<not> isl (reset E w) \<and> (\<forall>s. \<not> isl (loop_body L agent E a s))
        \<and> (\<forall>fs. \<not> isl (save_video L a fs)) \<longrightarrow>
      \<not> isl (run_episode L agent E w a))"
proof (intro conjI impI)
  assume run: "run_episode L agent E w a = Inr out"
  from run_episode_final [OF run] obtain h x where
    h: "history (final out) = h @ [x]"
    and before: "\<forall>i < length h. \<not> terminated (h ! i) \<and> \<not> truncated (h ! i) \<and> int (i + 1) < max_steps a"
    and stop: "terminated x \<or> truncated x \<or> max_steps a \<le> int (length h) + 1"
    and len: "length' (result out) = int (length h) + 1"
    by blast
  have le: "length' (result out) \<le> max 1 (max_steps a)"
  proof (cases h)
    case Nil
    with len show ?thesis by simp
  next
    case (Cons y ys)
    then have "length h - 1 < length h" by simp
    with before have "int (length h - 1 + 1) < max_steps a" by blast
    with Cons len show ?thesis by simp
  qed
  have eq: "length' (result out) = max 1 (max_steps a)" if "never_ends E"
  proof -
    from run_episode_answered [OF run] h have "answered E x" by simp
    with that have "\<not> terminated x \<and> \<not> truncated x"
      unfolding answered_def never_ends_def by blast
    with stop len le show ?thesis by simp
  qed
  from h before stop len le eq
  show "\<exists>h x. history (final out) = h @ [x]
         \<and> length' (result out) = int (length h) + 1
         \<and> (terminated x \<or> truncated x \<or> max_steps a \<le> length' (result out))
         \<and> (\<forall>i < length h. \<not> terminated (h ! i) \<and> \<not> truncated (h ! i) \<and> int (i + 1) < max_steps a)
         \<and> length' (result out) \<le> max 1 (max_steps a)
         \<and> (never_ends E \<longrightarrow> length' (result out) = max 1 (max_steps a))"
    by (intro exI [of _ h] exI [of _ x]) simp
next
  assume "\<not> isl (reset E w) \<and> (\<forall>s. \<not> isl (loop_body L agent E a s))
        \<and> (\<forall>fs. \<not> isl (save_video L a fs))"
  then show "\<not> isl (run_episode L agent E w a)"
    using run_episode_returns [of E w L agent a] by blast
qed

theorem run_episode_loop_ends_witness:
  "never_ends endless_env
   \<and> \<not> isl (run_episode ref_libs ref_agent endless_env 0 default_args)
   \<and> length' (result (projr (run_episode ref_libs ref_agent endless_env 0 default_args))) = 1000"
proof -
  let ?run = "run_episode ref_libs ref_agent endless_env 0 default_args"
  have n: "never_ends endless_env"
    by (simp add: never_ends_def endless_env_def counting_env_def)
  have "\<not> isl (reset endless_env 0)"
    and "\<forall>s. \<not> isl (loop_body ref_libs ref_agent endless_env default_args s)"
    and "\<forall>fs. \<not> isl (save_video ref_libs default_args fs)"
    by (simp_all add: endless_env_def ref_loop_body_total)
      (simp_all add: counting_env_def save_video_def default_args_def)
  with run_episode_loop_ends [of ref_libs ref_agent endless_env 0 default_args]
  have r: "\<not> isl ?run" by blast
  then obtain out where e: "?run = Inr out" by (cases ?run) auto
  with run_episode_loop_ends [of ref_libs ref_agent endless_env 0 default_args out] n
  have "length' (result out) = max 1 (max_steps default_args)" by blast
  then show ?thesis using n unfolding e by (simp add: default_args_def)
qed

theorem run_episode_ceiling_counterexample:
  "\<not> isl (run_episode ref_libs ref_agent endless_env 0 (default_args\<lparr>max_steps := 0\<rparr>))
   \<and> \<not> length' (result (projr
          (run_episode ref_libs ref_agent endless_env 0 (default_args\<lparr>max_steps := 0\<rparr>))))
        \<le> max_steps (default_args\<lparr>max_steps := 0\<rparr>)"
proof -
  let ?run = "run_episode ref_libs ref_agent endless_env 0 (default_args\<lparr>max_steps := 0\<rparr>)"
  have "case ?run of Inl e \<Rightarrow> False | Inr out \<Rightarrow> length' (result out) = 1"
    by (simp add: eval_defs)
  then obtain out where e: "?run = Inr out" and l: "length' (result out) = 1"
    by (auto split: sum.splits)
  then show ?thesis unfolding e by simp
qed

text \<open>
  C2.  When \<open>run_episode\<close> returns, \<open>return_\<close> is the sum, accumulated from 0 in the order
  of the steps, of the rewards that \<open>env.step\<close> answered, and \<open>length\<close> is the number of
  \<open>env.step\<close> calls made; every entry of the log is an answer of \<open>env.step\<close> to the action
  logged with it.  The rewards may be of any type with an addition and a zero, so the
  statement covers floating-point addition as it is; for exact numbers the accumulated sum
  is the mathematical one.  The scenario of the specification (termination reported at
  step 37, cumulative reward 12.5) is the witness.
\<close>

theorem run_episode_return_length:
  assumes "run_episode L agent E w a = Inr out"
  shows "return' (result out) = foldl (+) 0 (map reward (history (final out)))
           \<and> length' (result out) = int (length (history (final out)))
           \<and> list_all (answered E) (history (final out))"
proof -
  from run_episode_final [OF assms] obtain h x where
    "history (final out) = h @ [x]"
    "return' (result out) = foldl (+) 0 (map reward h) + reward x"
    "length' (result out) = int (length h) + 1"
    by blast
  then show ?thesis using run_episode_answered [OF assms] by (simp add: list_all_iff)
qed

theorem run_episode_return_length_witness:
  "\<not> isl scenario_37
   \<and> terminated (history (final (projr scenario_37)) ! 36)
   \<and> length (history (final (projr scenario_37))) = 37
   \<and> foldl (+) 0 (map reward (history (final (projr scenario_37)))) = 12.5
   \<and> result (projr scenario_37) = \<lparr>return' = 12.5, length' = 37\<rparr>"
proof -
  have "case scenario_37 of
          Inl e \<Rightarrow> False
        | Inr out \<Rightarrow> terminated (history (final out) ! 36)
            \<and> length (history (final out)) = 37
            \<and> result out = \<lparr>return' = 12.5, length' = 37\<rparr>"
    unfolding scenario_37_def by (simp add: eval_defs)
  then obtain out where e: "scenario_37 = Inr out"
    and t: "terminated (history (final out) ! 36)" "length (history (final out)) = 37"
    and r: "result out = \<lparr>return' = 12.5, length' = 37\<rparr>"
    by (auto split: sum.splits)
  from run_episode_return_length [OF e [unfolded scenario_37_def]] t r
  show ?thesis unfolding e by simp
qed







text \<open>
  C3.  \<open>run_episode\<close> is a function of the libraries (hence of the root key
  \<open>PRNGKey(0)\<close>), the policy, its arguments and the answers of the environment, and of
  nothing else: two runs against environments that answer alike (same exceptions, same
  observations, rewards, flags and frames, from states that correspond) raise the same
  exception, or return the same result, the same log of sub-seeds, actions and answers,
  the same frames and the same video events, and leave the environments in corresponding
  states.  With one environment and one start state this is the reproducibility of the
  episode.  The witness runs two representations of the same environment.
\<close>

theorem run_episode_deterministic:
  assumes "same_responses R E1 E2" and "R w1 w2"
  shows "rel_sum (=) (same_outcome R)
           (run_episode L agent E1 w1 a) (run_episode L agent E2 w2 a)"
proof -
  from assms have rs: "rel_sum (=) (rel_prod (=) R) (reset E1 w1) (reset E2 w2)"
    by (simp add: same_responses_def)
  show ?thesis
  proof (cases "reset E1 w1")
    case (Inl e)
    with rs have "reset E2 w2 = Inl e" by (cases "reset E2 w2") auto
    with Inl show ?thesis by (simp add: run_episode_def)
  next
    case (Inr p)
    obtain ob v1 where p: "p = (ob, v1)" by (cases p)
    from rs Inr p obtain v2 where r2: "reset E2 w2 = Inr (ob, v2)" and Rv: "R v1 v2"
      by (cases "reset E2 w2") auto
    let ?s = "\<lambda>v. \<lparr>key = jax_random_PRNGKey L 0, frames = [],
              obs = resize_top L (img_hw a) ob, ep_ret = 0, ep_len = 0,
              env_state = v, history = []\<rparr>"
    have "same_locals R (?s v1) (?s v2)" using Rv by (simp add: same_locals_def)
    from episode_loop_same [OF assms(1) this]
    have l: "rel_sum (=) (same_locals R)
               (episode_loop L agent E1 a (?s v1)) (episode_loop L agent E2 a (?s v2))" .
    show ?thesis
    proof (cases "episode_loop L agent E1 a (?s v1)")
      case (Inl e)
      with l have "episode_loop L agent E2 a (?s v2) = Inl e"
        by (cases "episode_loop L agent E2 a (?s v2)") auto
      with Inl \<open>reset E1 w1 = Inr p\<close> p r2 show ?thesis by (simp add: run_episode_def)
    next
      case (Inr t1)
      with l obtain t2 where l2: "episode_loop L agent E2 a (?s v2) = Inr t2"
        and t: "same_locals R t1 t2"
        by (cases "episode_loop L agent E2 a (?s v2)") auto
      from t have "frames t2 = frames t1" "ep_ret t2 = ep_ret t1" "ep_len t2 = ep_len t1"
        by (simp_all add: same_locals_def)
      with Inr l2 t \<open>reset E1 w1 = Inr p\<close> p r2 show ?thesis
        by (cases "save_video L a (frames t1)") (simp_all add: run_episode_def same_outcome_def)
    qed
  qed
qed


theorem run_episode_deterministic_witness:
  "same_responses tally_rel endless_env tally_env \<and> tally_rel 0 []
   \<and> rel_sum (=) (same_outcome tally_rel)
        (run_episode ref_libs ref_agent endless_env 0 (default_args\<lparr>max_steps := 3\<rparr>))
        (run_episode ref_libs ref_agent tally_env [] (default_args\<lparr>max_steps := 3\<rparr>))
   \<and> result (projr
        (run_episode ref_libs ref_agent tally_env [] (default_args\<lparr>max_steps := 3\<rparr>)))
      = \<lparr>return' = 3, length' = 3\<rparr>"
proof -
  have s: "same_responses tally_rel endless_env tally_env"
    by (simp add: same_responses_def tally_rel_def endless_env_def counting_env_def tally_env_def)
  have r: "tally_rel 0 []" by (simp add: tally_rel_def)
  have "result (projr
        (run_episode ref_libs ref_agent tally_env [] (default_args\<lparr>max_steps := 3\<rparr>)))
      = \<lparr>return' = 3, length' = 3\<rparr>"
    by (simp add: run_episode_def episode_loop.simps loop_body_def ref_libs_def ref_agent_def
        tally_env_def state_ob_def default_args_def obs_to_batched_def resize_top_def capture_def
        save_video_def index0_def newaxis_def spec_PRNGKey_def spec_split_def)
  with run_episode_deterministic [OF s r] s r show ?thesis by simp
qed

text \<open>
  C6, as amended.  When \<open>run_episode\<close> returns with a non-empty frame buffer and
  \<open>record_path\<close> is a non-empty string, the frames were written before the return: the
  directory of the path was created, \<open>imageio.mimsave\<close> wrote all the frames to the path
  at 30 frames per second, and the notice was printed.  (Frames are only ever kept when
  imageio was imported.)  When \<open>record_path\<close> is \<open>None\<close> or the empty string nothing
  is written, whatever the buffer holds: with \<open>render=True\<close> and the default
  \<open>record_path=None\<close> the call returns with a frame in the buffer and no file (the
  counterexample to the claim as written).
\<close>

theorem run_episode_flushes_frames:
  assumes "run_episode L agent E w a = Inr out"
  shows "(frames (final out) \<noteq> [] \<and> record_path a = Some path \<and> path \<noteq> [] \<longrightarrow>
            io out = [Makedirs (os_path_dirname L path), Mimsave path (frames (final out)) 30,
                      Print (''[video] saved: '' @ path)])
         \<and> (record_path a = None \<or> record_path a = Some [] \<longrightarrow> io out = [])"
proof (intro conjI impI)
  from run_episode_final [OF assms]
  have sv: "save_video L a (frames (final out)) = Inr (io out)" by blast
  {
    assume h: "frames (final out) \<noteq> [] \<and> record_path a = Some path \<and> path \<noteq> []"
    with run_episode_frames [OF assms] obtain mimsave where
      m: "imageio_mimsave L = Some mimsave" by auto
    with sv h
    show "io out = [Makedirs (os_path_dirname L path), Mimsave path (frames (final out)) 30,
                    Print (''[video] saved: '' @ path)]"
      by (auto simp: save_video_def split: option.splits)
  }
  {
    assume "record_path a = None \<or> record_path a = Some []"
    with sv show "io out = []"
      by (auto simp: save_video_def split: option.splits)
  }
qed

theorem run_episode_flushes_frames_witness:
  "\<not> isl (run_episode ref_libs ref_agent ended_env 0 record_args)
   \<and> frames (final (projr (run_episode ref_libs ref_agent ended_env 0 record_args)))
       = [NdArray [1, 1, 3] DUInt [Num 0, Num 0, Num 0]]
   \<and> record_path record_args = Some ''videos/eval_episode_000.mp4''
   \<and> io (projr (run_episode ref_libs ref_agent ended_env 0 record_args))
       = [Makedirs ''videos'',
          Mimsave ''videos/eval_episode_000.mp4'' [NdArray [1, 1, 3] DUInt [Num 0, Num 0, Num 0]] 30,
          Print ''[video] saved: videos/eval_episode_000.mp4'']
   \<and> \<not> isl (run_episode ref_libs ref_agent ended_env 0 (record_args\<lparr>record_path := Some []\<rparr>))
   \<and> io (projr (run_episode ref_libs ref_agent ended_env 0
        (record_args\<lparr>record_path := Some []\<rparr>))) = []"
proof -
  let ?run = "run_episode ref_libs ref_agent ended_env 0 record_args"
  let ?run' = "run_episode ref_libs ref_agent ended_env 0 (record_args\<lparr>record_path := Some []\<rparr>)"
  have "case ?run of
          Inl e \<Rightarrow> False
        | Inr out \<Rightarrow> frames (final out) = [NdArray [1, 1, 3] DUInt [Num 0, Num 0, Num 0]]"
    by (simp add: eval_defs)
  then obtain out where e: "?run = Inr out"
    and f: "frames (final out) = [NdArray [1, 1, 3] DUInt [Num 0, Num 0, Num 0]]"
    by (auto split: sum.splits)
  have p: "record_path record_args = Some ''videos/eval_episode_000.mp4''"
    by (simp add: record_args_def)
  have d: "os_path_dirname ref_libs ''videos/eval_episode_000.mp4'' = ''videos''"
    by (simp add: ref_libs_def ref_dirname_def)
  from f have "frames (final out) \<noteq> []" by simp
  with run_episode_flushes_frames [OF e, of "''videos/eval_episode_000.mp4''", THEN conjunct1] p
  have i: "io out = [Makedirs (os_path_dirname ref_libs ''videos/eval_episode_000.mp4''),
      Mimsave ''videos/eval_episode_000.mp4'' (frames (final out)) 30,
      Print (''[video] saved: '' @ ''videos/eval_episode_000.mp4'')]"
    by simp
  have "case ?run' of Inl e \<Rightarrow> False | Inr out \<Rightarrow> True"
    by (simp add: eval_defs)
  then obtain out' where e': "?run' = Inr out'" by (auto split: sum.splits)
  have "record_path (record_args\<lparr>record_path := Some []\<rparr>) = Some []" by simp
  with run_episode_flushes_frames [OF e', THEN conjunct2]
  have i': "io out' = []" by simp
  from i i' f p d show ?thesis unfolding e e' by simp
qed

theorem run_episode_no_path_counterexample:
  "\<not> isl (run_episode ref_libs ref_agent ended_env 0 render_only_args)
   \<and> frames (final (projr (run_episode ref_libs ref_agent ended_env 0 render_only_args))) \<noteq> []
   \<and> io (projr (run_episode ref_libs ref_agent ended_env 0 render_only_args)) = []"
proof -
  let ?run = "run_episode ref_libs ref_agent ended_env 0 render_only_args"
  have "case ?run of
          Inl e \<Rightarrow> False
        | Inr out \<Rightarrow> frames (final out) \<noteq> [] \<and> io out = []"
    by (simp add: eval_defs)
  then obtain out where "?run = Inr out" "frames (final out) \<noteq> []" "io out = []"
    by (auto split: sum.splits)
  then show ?thesis by simp
qed

end
